theory Spec2Isabelle
  imports Main "HOL-Library.Sublist" "HOL-Library.AList"
begin

section \<open>Key manager (plugins/api-potluck/key-manager.js)\<close>

text \<open>
  The key table \<open>keyStore.keys\<close> is an object indexed by the key id; it is a map here.
  Counters are JavaScript numbers that only ever hold integers, so they are \<open>int\<close>.
  Dates of the key table are strings that the module never parses (\<open>lastResetDate\<close> is
  the local date \<open>YYYY-MM-DD\<close>, \<open>lastUsedAt\<close> an ISO timestamp or \<open>null\<close>).
  The clock is an argument: \<open>today\<close> is what \<open>getTodayDateString()\<close> returns and
  \<open>nowIso\<close> what \<open>new Date().toISOString()\<close> returns at the call.
  Persistence (\<open>markDirty\<close>, \<open>persistIfDirty\<close>) does not change the table and is left out.
\<close>

definition KEY_PREFIX :: string where
  "KEY_PREFIX = ''maki_''"

record key_data =
  keyId :: string
  keyName :: string
  createdAt :: string
  dailyLimit :: int
  todayUsage :: int
  totalUsage :: int
  lastResetDate :: string
  lastUsedAt :: "string option"
  enabled :: bool
  bonusRemaining :: int

type_synonym key_store = "string \<rightharpoonup> key_data"

definition checkAndResetDailyCount :: "string \<Rightarrow> key_data \<Rightarrow> key_data" where
  "checkAndResetDailyCount today keyData =
     (if lastResetDate keyData \<noteq> today
      then keyData\<lparr>todayUsage := 0, lastResetDate := today\<rparr>
      else keyData)"

text \<open>\<open>x || 0\<close> on a number: \<open>0\<close> is falsy, every other integer is kept.\<close>

definition orZero :: "int \<Rightarrow> int" where
  "orZero x = (if x = 0 then 0 else x)"

datatype reason = invalid_format | not_found | disabled | quota_exceeded

text \<open>
  The object \<open>validateKey\<close> returns; a property that the returned literal does not
  have is \<open>None\<close>.
\<close>

record validation =
  valid :: bool
  reason :: "reason option"
  keyData :: "key_data option"
  useBonus :: "bool option"
  cachedBonus :: "int option"

text \<open>
  \<open>validateKey\<close>: the argument is \<open>None\<close> for \<open>null\<close>/\<open>undefined\<close>; the empty
  string is falsy as well. The function resets the stored record in place, so the table
  is returned with the result.
\<close>

definition validateKey :: "string \<Rightarrow> string option \<Rightarrow> key_store \<Rightarrow> validation \<times> key_store" where
  "validateKey today apiKey keys =
     (case apiKey of
        None \<Rightarrow>
          (\<lparr>valid = False, reason = Some invalid_format, keyData = None,
            useBonus = None, cachedBonus = None\<rparr>, keys)
      | Some k \<Rightarrow>
          if k = [] \<or> \<not> prefix KEY_PREFIX k then
            (\<lparr>valid = False, reason = Some invalid_format, keyData = None,
              useBonus = None, cachedBonus = None\<rparr>, keys)
          else
            (case keys k of
               None \<Rightarrow>
                 (\<lparr>valid = False, reason = Some not_found, keyData = None,
                   useBonus = None, cachedBonus = None\<rparr>, keys)
             | Some kd \<Rightarrow>
                 if \<not> enabled kd then
                   (\<lparr>valid = False, reason = Some disabled, keyData = None,
                     useBonus = None, cachedBonus = None\<rparr>, keys)
                 else
                   let kd' = checkAndResetDailyCount today kd;
                       keys' = keys(k \<mapsto> kd')
                   in if todayUsage kd' < dailyLimit kd' then
                        (\<lparr>valid = True, reason = None, keyData = Some kd',
                          useBonus = Some False, cachedBonus = None\<rparr>, keys')
                      else
                        let b = orZero (bonusRemaining kd')
                        in if b > 0 then
                             (\<lparr>valid = True, reason = None, keyData = Some kd',
                               useBonus = Some True, cachedBonus = Some b\<rparr>, keys')
                           else
                             (\<lparr>valid = False, reason = Some quota_exceeded,
                               keyData = Some kd', useBonus = None,
                               cachedBonus = None\<rparr>, keys')))"

text \<open>
  \<open>incrementUsage\<close>: \<open>'u\<close> is the state the callback \<open>onBonusUsed\<close> works on (the
  user-data store when the plugin passes \<open>consumeBonus\<close>); the callback's return value
  is discarded by the source (\<open>await onBonusUsed(apiKey)\<close> as a statement). The result
  is \<open>None\<close> for \<open>null\<close> and otherwise the record with the extra \<open>usedBonus\<close> property.
  On the no-quota path the lazy reset has already been written to the stored record.
\<close>

definition incrementUsage ::
  "string \<Rightarrow> string \<Rightarrow> string \<Rightarrow> (string \<Rightarrow> 'u \<Rightarrow> 'u) option \<Rightarrow> key_store \<times> 'u
     \<Rightarrow> (key_data \<times> bool) option \<times> key_store \<times> 'u" where
  "incrementUsage today nowIso apiKey onBonusUsed st =
     (case st of (keys, u) \<Rightarrow>
        (case keys apiKey of
           None \<Rightarrow> (None, keys, u)
         | Some kd \<Rightarrow>
             let kd1 = checkAndResetDailyCount today kd
             in if todayUsage kd1 < dailyLimit kd1 then
                  let kd2 = kd1\<lparr>todayUsage := todayUsage kd1 + 1\<rparr>;
                      kd3 = kd2\<lparr>totalUsage := totalUsage kd2 + 1, lastUsedAt := Some nowIso\<rparr>
                  in (Some (kd3, False), keys(apiKey \<mapsto> kd3), u)
                else
                  let b = orZero (bonusRemaining kd1)
                  in if b > 0 then
                       let kd2 = kd1\<lparr>bonusRemaining := b - 1\<rparr>;
                           u' = (case onBonusUsed of None \<Rightarrow> u | Some f \<Rightarrow> f apiKey u);
                           kd3 = kd2\<lparr>totalUsage := totalUsage kd2 + 1,
                                     lastUsedAt := Some nowIso\<rparr>
                       in (Some (kd3, True), keys(apiKey \<mapsto> kd3), u')
                     else (None, keys(apiKey \<mapsto> kd1), u)))"

definition updateBonusRemaining :: "string \<Rightarrow> int \<Rightarrow> key_store \<Rightarrow> bool \<times> key_store" where
  "updateBonusRemaining k n keys =
     (case keys k of
        None \<Rightarrow> (False, keys)
      | Some kd \<Rightarrow> (True, keys(k \<mapsto> kd\<lparr>bonusRemaining := max 0 n\<rparr>)))"

section \<open>User data and the bonus ledger (plugins/api-potluck/user-data-manager.js)\<close>

text \<open>
  \<open>userDataStore\<close> is \<open>{config, users}\<close>. \<open>users\<close> is an object that
  \<open>isCredentialPathUsed\<close> enumerates in insertion order, so it is an association list:
  assignment to a present key keeps its place, a new key goes to the end, \<open>delete\<close>
  removes the entry. A configuration field that is absent is \<open>None\<close>.

  \<open>grantedAt\<close> and \<open>addedAt\<close> are ISO strings in the source that are only ever
  read through \<open>new Date(...)\<close>; the model keeps the instant they denote, in milliseconds
  since the epoch, and \<open>now\<close> is the instant \<open>new Date()\<close> returns at the call.
  The module writes these strings itself with \<open>toISOString()\<close>; a string that does not
  parse as a date has no counterpart here. Counters and configuration values are integers.
  A legacy user record may lack \<open>credentialBonuses\<close>; the field is an option.
  The timer and the file watcher (\<open>markDirty\<close>, \<open>persistIfDirty\<close>, hot reload of
  \<open>config\<close>) are left out: the configuration is whatever the store holds at the call.
\<close>

record store_config =
  cfgDefaultDailyLimit :: "int option"
  cfgBonusPerCredential :: "int option"
  cfgBonusValidityDays :: "int option"
  cfgPersistInterval :: "int option"

record full_config =
  defaultDailyLimit :: int
  bonusPerCredential :: int
  bonusValidityDays :: int
  persistInterval :: int

record credential =
  credId :: string
  path :: string
  provider :: string
  authMethod :: string
  addedAt :: int

record bonus =
  credentialId :: string
  grantedAt :: int
  usedCount :: int

record user_data =
  credentials :: "credential list"
  credentialBonuses :: "bonus list option"
  userCreatedAt :: int

record user_data_store =
  config :: store_config
  users :: "(string \<times> user_data) list"

definition DEFAULT_CONFIG :: full_config where
  "DEFAULT_CONFIG = \<lparr>defaultDailyLimit = 500, bonusPerCredential = 300,
                      bonusValidityDays = 30, persistInterval = 5000\<rparr>"

text \<open>\<open>a ?? b\<close>\<close>

definition nullish :: "'a option \<Rightarrow> 'a \<Rightarrow> 'a" where
  "nullish a b = (case a of None \<Rightarrow> b | Some v \<Rightarrow> v)"

definition getFullConfig :: "user_data_store \<Rightarrow> full_config" where
  "getFullConfig s =
     \<lparr>defaultDailyLimit = nullish (cfgDefaultDailyLimit (config s)) (defaultDailyLimit DEFAULT_CONFIG),
      bonusPerCredential = nullish (cfgBonusPerCredential (config s)) (bonusPerCredential DEFAULT_CONFIG),
      bonusValidityDays = nullish (cfgBonusValidityDays (config s)) (bonusValidityDays DEFAULT_CONFIG),
      persistInterval = nullish (cfgPersistInterval (config s)) (persistInterval DEFAULT_CONFIG)\<rparr>"

definition getUserData :: "user_data_store \<Rightarrow> string \<Rightarrow> user_data option" where
  "getUserData s apiKey = map_of (users s) apiKey"

definition ensureUserData :: "int \<Rightarrow> string \<Rightarrow> user_data_store \<Rightarrow> user_data \<times> user_data_store" where
  "ensureUserData now apiKey s =
     (let u = (case map_of (users s) apiKey of
                 None \<Rightarrow> \<lparr>credentials = [], credentialBonuses = Some [], userCreatedAt = now\<rparr>
               | Some u0 \<Rightarrow> u0);
          u' = (case credentialBonuses u of None \<Rightarrow> u\<lparr>credentialBonuses := Some []\<rparr>
                | Some _ \<Rightarrow> u)
      in (u', s\<lparr>users := AList.update apiKey u' (users s)\<rparr>))"

subsection \<open>Credentials\<close>

record credential_info =
  infoPath :: string
  infoProvider :: "string option"
  infoAuthMethod :: "string option"

text \<open>\<open>s || d\<close> on an optional string: \<open>undefined\<close> and the empty string are falsy.\<close>

definition orDefault :: "string option \<Rightarrow> string \<Rightarrow> string" where
  "orDefault a d = (case a of None \<Rightarrow> d | Some v \<Rightarrow> if v = [] then d else v)"

text \<open>\<open>findIndex\<close>: the first index whose element satisfies the predicate, \<open>None\<close> for \<open>-1\<close>.\<close>

fun findIndex :: "('a \<Rightarrow> bool) \<Rightarrow> 'a list \<Rightarrow> nat option" where
  "findIndex P [] = None"
| "findIndex P (x # xs) =
     (if P x then Some 0 else (case findIndex P xs of None \<Rightarrow> None | Some i \<Rightarrow> Some (Suc i)))"

text \<open>\<open>arr.splice(idx, 1)\<close>\<close>

definition splice1 :: "nat \<Rightarrow> 'a list \<Rightarrow> 'a list" where
  "splice1 idx xs = take idx xs @ drop (Suc idx) xs"

text \<open>
  \<open>addUserCredential\<close>: \<open>freshId\<close> is the identifier the source builds from the clock
  and \<open>Math.random()\<close>. Only the caller's own list is searched for the path.
\<close>

definition addUserCredential ::
  "int \<Rightarrow> string \<Rightarrow> string \<Rightarrow> credential_info \<Rightarrow> user_data_store \<Rightarrow> credential \<times> user_data_store" where
  "addUserCredential now freshId apiKey credentialInfo s =
     (case ensureUserData now apiKey s of (userData, s1) \<Rightarrow>
        let existingIndex = findIndex (\<lambda>c. path c = infoPath credentialInfo) (credentials userData);
            cred = \<lparr>credId = freshId, path = infoPath credentialInfo,
                    provider = orDefault (infoProvider credentialInfo) ''claude-kiro-oauth'',
                    authMethod = orDefault (infoAuthMethod credentialInfo) ''unknown'',
                    addedAt = now\<rparr>
        in (case existingIndex of
              Some i \<Rightarrow>
                let cred' = cred\<lparr>credId := credId (credentials userData ! i),
                                 addedAt := addedAt (credentials userData ! i)\<rparr>;
                    userData' = userData\<lparr>credentials := (credentials userData)[i := cred']\<rparr>
                in (cred', s1\<lparr>users := AList.update apiKey userData' (users s1)\<rparr>)
            | None \<Rightarrow>
                let userData' = userData\<lparr>credentials := credentials userData @ [cred]\<rparr>
                in (cred, s1\<lparr>users := AList.update apiKey userData' (users s1)\<rparr>)))"

definition removeUserCredential :: "string \<Rightarrow> string \<Rightarrow> user_data_store \<Rightarrow> bool \<times> user_data_store" where
  "removeUserCredential apiKey cid s =
     (case map_of (users s) apiKey of
        None \<Rightarrow> (False, s)
      | Some userData \<Rightarrow>
          (case findIndex (\<lambda>c. credId c = cid) (credentials userData) of
             None \<Rightarrow> (False, s)
           | Some i \<Rightarrow>
               (True, s\<lparr>users := AList.update apiKey
                          (userData\<lparr>credentials := splice1 i (credentials userData)\<rparr>) (users s)\<rparr>)))"

fun isCredentialPathUsed_loop :: "string \<Rightarrow> (string \<times> user_data) list \<Rightarrow> string option" where
  "isCredentialPathUsed_loop credPath [] = None"
| "isCredentialPathUsed_loop credPath ((apiKey, userData) # rest) =
     (if list_ex (\<lambda>c. path c = credPath) (credentials userData) then Some apiKey
      else isCredentialPathUsed_loop credPath rest)"

text \<open>\<open>{exists: true, apiKey}\<close> is \<open>Some apiKey\<close>, \<open>{exists: false}\<close> is \<open>None\<close>.\<close>

definition isCredentialPathUsed :: "string \<Rightarrow> user_data_store \<Rightarrow> string option" where
  "isCredentialPathUsed credPath s = isCredentialPathUsed_loop credPath (users s)"

text \<open>
  \<open>migrateUserCredentials\<close>: the record moves to the new key; the two properties it
  gains (\<open>migratedFrom\<close>, \<open>migratedAt\<close>) are not read anywhere and are not kept.
\<close>

definition migrateUserCredentials ::
  "string \<Rightarrow> string \<Rightarrow> user_data_store \<Rightarrow> bool \<times> user_data_store" where
  "migrateUserCredentials oldApiKey newApiKey s =
     (case map_of (users s) oldApiKey of
        None \<Rightarrow> (False, s)
      | Some oldUserData \<Rightarrow>
          (True, s\<lparr>users := AList.delete oldApiKey
                              (AList.update newApiKey oldUserData (users s))\<rparr>))"

subsection \<open>Bonus grants\<close>

definition calculateExpiresAt :: "user_data_store \<Rightarrow> int \<Rightarrow> int" where
  "calculateExpiresAt s granted =
     granted + bonusValidityDays (getFullConfig s) * 24 * 60 * 60 * 1000"

definition isBonusExpired :: "int \<Rightarrow> user_data_store \<Rightarrow> bonus \<Rightarrow> bool" where
  "isBonusExpired now s b \<longleftrightarrow> now > calculateExpiresAt s (grantedAt b)"

text \<open>
  \<open>consumeBonus\<close>. The filtered and sorted array holds the very objects of
  \<open>userData.credentialBonuses\<close>, and the loop increments one of them in place; the
  model therefore filters and sorts the positions of the stored array and updates
  the stored array at the position found. \<open>Array.prototype.sort\<close> is stable, as
  \<open>sort_key\<close> is.
\<close>

definition sortedBonuses :: "int \<Rightarrow> user_data_store \<Rightarrow> bonus list \<Rightarrow> nat list" where
  "sortedBonuses now s bs =
     sort_key (\<lambda>i. grantedAt (bs ! i))
       (filter (\<lambda>i. \<not> isBonusExpired now s (bs ! i)) [0..<length bs])"

fun consumeBonus_loop :: "int \<Rightarrow> bonus list \<Rightarrow> nat list \<Rightarrow> bool \<times> bonus list" where
  "consumeBonus_loop per bs [] = (False, bs)"
| "consumeBonus_loop per bs (i # rest) =
     (let remaining = per - usedCount (bs ! i)
      in if remaining > 0
         then (True, bs[i := (bs ! i)\<lparr>usedCount := usedCount (bs ! i) + 1\<rparr>])
         else consumeBonus_loop per bs rest)"

text \<open>The body that \<open>bonusMutex.runExclusive\<close> runs; it contains no \<open>await\<close>.\<close>

definition consumeBonus :: "int \<Rightarrow> string \<Rightarrow> user_data_store \<Rightarrow> bool \<times> user_data_store" where
  "consumeBonus now apiKey s =
     (case map_of (users s) apiKey of
        None \<Rightarrow> (False, s)
      | Some userData \<Rightarrow>
          (case credentialBonuses userData of
             None \<Rightarrow> (False, s)
           | Some bs \<Rightarrow>
               (case consumeBonus_loop (bonusPerCredential (getFullConfig s)) bs
                       (sortedBonuses now s bs) of
                  (ok, bs') \<Rightarrow>
                    (ok, s\<lparr>users := AList.update apiKey
                                 (userData\<lparr>credentialBonuses := Some bs'\<rparr>) (users s)\<rparr>))))"

fun calculateBonusRemaining_loop ::
  "int \<Rightarrow> user_data_store \<Rightarrow> string set option \<Rightarrow> bonus list \<Rightarrow> int \<Rightarrow> int" where
  "calculateBonusRemaining_loop now s healthy [] tot = tot"
| "calculateBonusRemaining_loop now s healthy (b # bs) tot =
     (if isBonusExpired now s b then calculateBonusRemaining_loop now s healthy bs tot
      else if (case healthy of None \<Rightarrow> False | Some h \<Rightarrow> credentialId b \<notin> h)
      then calculateBonusRemaining_loop now s healthy bs tot
      else
        let remaining = bonusPerCredential (getFullConfig s) - usedCount b
        in if remaining > 0
           then calculateBonusRemaining_loop now s healthy bs (tot + remaining)
           else calculateBonusRemaining_loop now s healthy bs tot)"

definition calculateBonusRemaining ::
  "int \<Rightarrow> user_data_store \<Rightarrow> string \<Rightarrow> string set option \<Rightarrow> int" where
  "calculateBonusRemaining now s apiKey healthyCredentialIds =
     (case map_of (users s) apiKey of
        None \<Rightarrow> 0
      | Some userData \<Rightarrow>
          (case credentialBonuses userData of
             None \<Rightarrow> 0
           | Some bs \<Rightarrow> calculateBonusRemaining_loop now s healthyCredentialIds bs 0))"

subsection \<open>Reconciliation\<close>

text \<open>
  An entry of \<open>credentialsWithHealth\<close>: \<open>isHealthy\<close> is \<open>true\<close>, \<open>false\<close> or
  \<open>null\<close> (\<open>None\<close>); \<open>addedAt\<close> may be missing.
\<close>

record cred_health =
  healthId :: string
  isHealthy :: "bool option"
  healthAddedAt :: "int option"

definition healthyIds :: "cred_health list \<Rightarrow> string set" where
  "healthyIds credentialsWithHealth =
     set (map healthId (filter (\<lambda>c. isHealthy c = Some True) credentialsWithHealth))"

fun sync_addLoop :: "int \<Rightarrow> cred_health list \<Rightarrow> bonus list \<Rightarrow> nat \<Rightarrow> bonus list \<times> nat" where
  "sync_addLoop now [] bs added = (bs, added)"
| "sync_addLoop now (cred # rest) bs added =
     (if isHealthy cred \<noteq> Some True then sync_addLoop now rest bs added
      else if list_ex (\<lambda>b. credentialId b = healthId cred) bs
      then sync_addLoop now rest bs added
      else sync_addLoop now rest
             (bs @ [\<lparr>credentialId = healthId cred,
                     grantedAt = (case healthAddedAt cred of None \<Rightarrow> now | Some t \<Rightarrow> t),
                     usedCount = 0\<rparr>])
             (added + 1))"

text \<open>
  \<open>indexOf\<close> compares objects by identity. Every element of \<open>toRemove\<close> is an object
  of the array, taken in array order, and an equal record carries the same
  \<open>credentialId\<close> and so is in \<open>toRemove\<close> too: the first equal element still in the
  array is the object itself, and the search by value finds the same position.
\<close>

fun sync_removeLoop :: "bonus list \<Rightarrow> bonus list \<Rightarrow> nat \<Rightarrow> bonus list \<times> nat" where
  "sync_removeLoop [] bs removed = (bs, removed)"
| "sync_removeLoop (b # rest) bs removed =
     (case findIndex (\<lambda>x. x = b) bs of
        None \<Rightarrow> sync_removeLoop rest bs removed
      | Some idx \<Rightarrow> sync_removeLoop rest (splice1 idx bs) (removed + 1))"

record sync_result =
  added :: nat
  removed :: nat
  syncBonusRemaining :: int

definition syncCredentialBonuses ::
  "int \<Rightarrow> string \<Rightarrow> cred_health list \<Rightarrow> user_data_store \<Rightarrow> sync_result \<times> user_data_store" where
  "syncCredentialBonuses now apiKey credentialsWithHealth s =
     (case ensureUserData now apiKey s of (userData, s1) \<Rightarrow>
        let hs = healthyIds credentialsWithHealth;
            bs0 = (case credentialBonuses userData of None \<Rightarrow> [] | Some l \<Rightarrow> l);
            (bs1, nAdded) = sync_addLoop now credentialsWithHealth bs0 0;
            toRemove = filter (\<lambda>b. credentialId b \<notin> hs) bs1;
            (bs2, nRemoved) = sync_removeLoop toRemove bs1 0;
            bs3 = filter (\<lambda>b. \<not> isBonusExpired now s1 b) bs2;
            s2 = s1\<lparr>users := AList.update apiKey
                                (userData\<lparr>credentialBonuses := Some bs3\<rparr>) (users s1)\<rparr>
        in (\<lparr>added = nAdded, removed = nRemoved,
             syncBonusRemaining = calculateBonusRemaining now s2 apiKey (Some hs)\<rparr>, s2))"

section \<open>Recording usage (plugins/api-potluck/index.js)\<close>

text \<open>
  The hook \<open>onContentGenerated\<close> calls \<open>incrementUsage\<close> with a callback that awaits
  \<open>consumeBonus(apiKey)\<close> and drops its boolean.
\<close>

definition recordUsage ::
  "string \<Rightarrow> string \<Rightarrow> int \<Rightarrow> string \<Rightarrow> key_store \<times> user_data_store
     \<Rightarrow> (key_data \<times> bool) option \<times> key_store \<times> user_data_store" where
  "recordUsage today nowIso now apiKey st =
     incrementUsage today nowIso apiKey (Some (\<lambda>k u. snd (consumeBonus now k u))) st"

section \<open>The mutex around \<open>consumeBonus\<close> (\<open>SimpleMutex\<close>, \<open>runExclusive\<close>)\<close>

text \<open>
  \<open>SimpleMutex\<close>: \<open>_locked\<close> and the queue \<open>_waiting\<close> of resolvers; a resolver
  is named by the call that awaits it.
\<close>

record simple_mutex =
  locked :: bool
  waiting :: "nat list"

text \<open>
  \<open>acquire()\<close>: the promise is resolved at once when the mutex is free (the boolean),
  otherwise its resolver is pushed on the queue.
\<close>

definition acquire :: "nat \<Rightarrow> simple_mutex \<Rightarrow> bool \<times> simple_mutex" where
  "acquire t m =
     (if \<not> locked m then (True, m\<lparr>locked := True\<rparr>)
      else (False, m\<lparr>waiting := waiting m @ [t]\<rparr>))"

text \<open>
  \<open>release()\<close>: the first queued resolver is shifted off and called (the mutex stays
  locked and passes to that waiter); with an empty queue the mutex is unlocked.
\<close>

definition release :: "simple_mutex \<Rightarrow> nat option \<times> simple_mutex" where
  "release m =
     (case waiting m of
        next # rest \<Rightarrow> (Some next, m\<lparr>waiting := rest\<rparr>)
      | [] \<Rightarrow> (None, m\<lparr>locked := False\<rparr>))"

text \<open>
  A call \<open>consumeBonus(apiKey)\<close>, that is \<open>bonusMutex.runExclusive(body)\<close>, passes
  through these states: not yet made; made and queued in \<open>acquire\<close>; past
  \<open>await this.acquire()\<close> and about to run the body; body run, with its result, and
  about to \<open>release\<close>; returned. JavaScript runs one continuation at a time and switches
  only at an \<open>await\<close>; the body has none, so it is one step. Which pending
  continuation runs next is left open: the relation allows every order, among them the
  order of the microtask queue. \<open>clock t\<close> is the instant the body of call \<open>t\<close> reads.
\<close>

datatype call_state = Calling | Queued | Resumed | BodyDone bool | Returned bool

record potluck_run =
  bonusMutex :: simple_mutex
  calls :: "call_state list"
  userDataStore :: user_data_store

inductive runExclusive_step :: "(nat \<Rightarrow> int) \<Rightarrow> string \<Rightarrow> potluck_run \<Rightarrow> potluck_run \<Rightarrow> bool"
  for clock :: "nat \<Rightarrow> int" and apiKey :: string where
  step_acquire:
    "t < length (calls r) \<Longrightarrow> calls r ! t = Calling \<Longrightarrow>
     acquire t (bonusMutex r) = (resolved, m') \<Longrightarrow>
     runExclusive_step clock apiKey r
       (r\<lparr>bonusMutex := m', calls := (calls r)[t := if resolved then Resumed else Queued]\<rparr>)"
| step_body:
    "t < length (calls r) \<Longrightarrow> calls r ! t = Resumed \<Longrightarrow>
     consumeBonus (clock t) apiKey (userDataStore r) = (ok, s') \<Longrightarrow>
     runExclusive_step clock apiKey r
       (r\<lparr>calls := (calls r)[t := BodyDone ok], userDataStore := s'\<rparr>)"
| step_release:
    "t < length (calls r) \<Longrightarrow> calls r ! t = BodyDone ok \<Longrightarrow>
     release (bonusMutex r) = (woken, m') \<Longrightarrow>
     runExclusive_step clock apiKey r
       (r\<lparr>bonusMutex := m',
          calls := (case woken of None \<Rightarrow> calls r | Some n \<Rightarrow> (calls r)[n := Resumed])
                     [t := Returned ok]\<rparr>)"

text \<open>\<open>N\<close> calls not yet made, the mutex free.\<close>

definition concurrentCalls :: "nat \<Rightarrow> user_data_store \<Rightarrow> potluck_run" where
  "concurrentCalls N s =
     \<lparr>bonusMutex = \<lparr>locked = False, waiting = []\<rparr>, calls = replicate N Calling,
      userDataStore = s\<rparr>"

section \<open>Views and call sequences used in the statements\<close>

text \<open>\<open>userDataStore.users[apiKey]?.credentialBonuses\<close>: the grants a tenant holds.\<close>

definition userGrants :: "user_data_store \<Rightarrow> string \<Rightarrow> bonus list option" where
  "userGrants s apiKey =
     (case map_of (users s) apiKey of None \<Rightarrow> None | Some u \<Rightarrow> credentialBonuses u)"

text \<open>
  Successive calls \<open>consumeBonus(apiKey)\<close>, one for each clock reading of the list,
  each on the store the previous call left; the booleans returned are collected.
\<close>

fun consumeBonus_calls :: "int list \<Rightarrow> string \<Rightarrow> user_data_store \<Rightarrow> bool list \<times> user_data_store" where
  "consumeBonus_calls [] apiKey s = ([], s)"
| "consumeBonus_calls (now # nows) apiKey s =
     (case consumeBonus now apiKey s of
        (ok, s') \<Rightarrow>
          (case consumeBonus_calls nows apiKey s' of (oks, s'') \<Rightarrow> (ok # oks, s'')))"

text \<open>
  The stores that the exported operations on credentials and grants produce from a
  store without users, with any arguments and at any clock readings.
\<close>

inductive reachable :: "user_data_store \<Rightarrow> bool" where
  reach_init: "reachable \<lparr>config = c, users = []\<rparr>"
| reach_ensure: "reachable s \<Longrightarrow> reachable (snd (ensureUserData now apiKey s))"
| reach_add: "reachable s \<Longrightarrow> reachable (snd (addUserCredential now freshId apiKey info s))"
| reach_remove: "reachable s \<Longrightarrow> reachable (snd (removeUserCredential apiKey cid s))"
| reach_migrate: "reachable s \<Longrightarrow> reachable (snd (migrateUserCredentials oldKey newKey s))"
| reach_consume: "reachable s \<Longrightarrow> reachable (snd (consumeBonus now apiKey s))"
| reach_sync: "reachable s \<Longrightarrow> reachable (snd (syncCredentialBonuses now apiKey creds s))"

text \<open>
  A call holds the mutex from the moment its \<open>acquire\<close> promise is resolved until it
  releases. \<open>pendingSteps\<close> bounds the steps a call can still cause.
\<close>

fun holdsMutex :: "call_state \<Rightarrow> bool" where
  "holdsMutex Resumed = True"
| "holdsMutex (BodyDone _) = True"
| "holdsMutex _ = False"

fun pendingSteps :: "call_state \<Rightarrow> nat" where
  "pendingSteps Calling = 4"
| "pendingSteps Queued = 3"
| "pendingSteps Resumed = 2"
| "pendingSteps (BodyDone _) = 1"
| "pendingSteps (Returned _) = 0"

text \<open>
  The state of the mutex agrees with the calls: the queue lists exactly the queued
  calls, once each; the mutex is locked exactly when some call holds it, and at most
  one does; nobody queues on a free mutex.
\<close>

definition mutexInv :: "potluck_run \<Rightarrow> bool" where
  "mutexInv r \<longleftrightarrow>
     distinct (waiting (bonusMutex r))
     \<and> set (waiting (bonusMutex r)) = {t. t < length (calls r) \<and> calls r ! t = Queued}
     \<and> (locked (bonusMutex r) \<longleftrightarrow> (\<exists>t<length (calls r). holdsMutex (calls r ! t)))
     \<and> (\<forall>t<length (calls r). \<forall>t'<length (calls r).
           holdsMutex (calls r ! t) \<longrightarrow> holdsMutex (calls r ! t') \<longrightarrow> t = t')
     \<and> (\<not> locked (bonusMutex r) \<longrightarrow> waiting (bonusMutex r) = [])"

text \<open>A call that got \<open>true\<close>, a call that got \<open>false\<close>.\<close>

fun succeeded :: "call_state \<Rightarrow> bool" where
  "succeeded (BodyDone ok) = ok"
| "succeeded (Returned ok) = ok"
| "succeeded _ = False"

fun failed :: "call_state \<Rightarrow> bool" where
  "failed (BodyDone ok) = (\<not> ok)"
| "failed (Returned ok) = (\<not> ok)"
| "failed _ = False"

fun hasReturned :: "call_state \<Rightarrow> bool" where
  "hasReturned (Returned _) = True"
| "hasReturned _ = False"

text \<open>
  The store in which the grant at position \<open>i\<close> has been used \<open>n\<close> times, and the
  relation between the calls and the store that every run keeps: the successful calls
  are as many as the uses, they never exceed the capacity, and a call fails only when the
  capacity is used up.
\<close>

definition grantStore ::
  "user_data_store \<Rightarrow> string \<Rightarrow> user_data \<Rightarrow> bonus list \<Rightarrow> nat \<Rightarrow> nat \<Rightarrow> user_data_store" where
  "grantStore s apiKey u bs i n =
     s\<lparr>users := AList.update apiKey
          (u\<lparr>credentialBonuses := Some (bs[i := (bs ! i)\<lparr>usedCount := int n\<rparr>])\<rparr>) (users s)\<rparr>"

definition consumeInv ::
  "user_data_store \<Rightarrow> string \<Rightarrow> user_data \<Rightarrow> bonus list \<Rightarrow> nat \<Rightarrow> nat \<Rightarrow> potluck_run \<Rightarrow> bool" where
  "consumeInv s apiKey u bs i C r \<longleftrightarrow>
     (\<exists>n\<le>C. userDataStore r = grantStore s apiKey u bs i n
           \<and> length (filter succeeded (calls r)) = n
           \<and> (\<forall>t<length (calls r). failed (calls r ! t) \<longrightarrow> n = C))"

section \<open>Example states\<close>

text \<open>A key whose daily quota is used up on 3 November 2026 and whose cached bonus is 3.\<close>

definition exKey :: key_data where
  "exKey = \<lparr>keyId = ''maki_a'', keyName = ''Key-1'', createdAt = ''2026-11-01T00:00:00.000Z'',
            dailyLimit = 2, todayUsage = 2, totalUsage = 7, lastResetDate = ''2026-11-03'',
            lastUsedAt = None, enabled = True, bonusRemaining = 3\<rparr>"

text \<open>
  A configuration with two uses per credential and thirty days of validity
  (2592000000 ms), and grants read at the instant 3000000000: one granted at
  1000000000 (live) and one granted at 0 (expired).
\<close>

definition exConfig :: store_config where
  "exConfig = \<lparr>cfgDefaultDailyLimit = None, cfgBonusPerCredential = Some 2,
               cfgBonusValidityDays = Some 30, cfgPersistInterval = None\<rparr>"

definition exEmptyStore :: user_data_store where
  "exEmptyStore = \<lparr>config = exConfig, users = []\<rparr>"

definition exUsedUpStore :: user_data_store where
  "exUsedUpStore =
     \<lparr>config = exConfig,
      users = [(''maki_a'',
                \<lparr>credentials = [],
                 credentialBonuses =
                   Some [\<lparr>credentialId = ''cred_1'', grantedAt = 1000000000, usedCount = 2\<rparr>,
                         \<lparr>credentialId = ''cred_2'', grantedAt = 0, usedCount = 0\<rparr>],
                 userCreatedAt = 0\<rparr>)]\<rparr>"

text \<open>
  A tenant with three grants stored out of chronological order: the live ones
  were granted at 2000000000 and at 1000000000, the one granted at 0 is expired at
  every instant from 3000000000 on.
\<close>

definition exFifoStore :: user_data_store where
  "exFifoStore =
     \<lparr>config = exConfig,
      users = [(''maki_a'',
                \<lparr>credentials = [],
                 credentialBonuses =
                   Some [\<lparr>credentialId = ''cred_2'', grantedAt = 2000000000, usedCount = 0\<rparr>,
                         \<lparr>credentialId = ''cred_0'', grantedAt = 0, usedCount = 0\<rparr>,
                         \<lparr>credentialId = ''cred_1'', grantedAt = 1000000000, usedCount = 0\<rparr>],
                 userCreatedAt = 0\<rparr>)]\<rparr>"

text \<open>
  A tenant with one live grant, used once, and a health snapshot that reports that
  credential and a new one healthy, one credential unhealthy and one unregistered.
\<close>

definition exOneGrantStore :: user_data_store where
  "exOneGrantStore =
     \<lparr>config = exConfig,
      users = [(''maki_a'',
                \<lparr>credentials = [],
                 credentialBonuses =
                   Some [\<lparr>credentialId = ''cred_1'', grantedAt = 1000000000, usedCount = 1\<rparr>],
                 userCreatedAt = 0\<rparr>)]\<rparr>"

definition exSnapshot :: "cred_health list" where
  "exSnapshot =
     [\<lparr>healthId = ''cred_1'', isHealthy = Some True, healthAddedAt = Some 1000000000\<rparr>,
      \<lparr>healthId = ''cred_3'', isHealthy = Some True, healthAddedAt = Some 2000000000\<rparr>,
      \<lparr>healthId = ''cred_4'', isHealthy = Some False, healthAddedAt = None\<rparr>,
      \<lparr>healthId = ''cred_5'', isHealthy = None, healthAddedAt = Some 2000000000\<rparr>]"

text \<open>
  Two tenants who each register the same credential file, starting from a store
  without users.
\<close>

definition exCredentialInfo :: credential_info where
  "exCredentialInfo = \<lparr>infoPath = ''configs/kiro/1_token/token.json'',
                        infoProvider = Some ''claude-kiro-oauth'',
                        infoAuthMethod = None\<rparr>"

definition exSharedPathStore :: user_data_store where
  "exSharedPathStore =
     snd (addUserCredential 2000 ''cred_2000_bbbbbb'' ''maki_b'' exCredentialInfo
       (snd (addUserCredential 1000 ''cred_1000_aaaaaa'' ''maki_a'' exCredentialInfo exEmptyStore)))"

text \<open>
  A tenant with one expired and one live, unused grant of capacity 1; the same store
  after one use; and the end of a run of two concurrent calls.
\<close>

definition exSingleGrantStore :: user_data_store where
  "exSingleGrantStore =
     \<lparr>config = \<lparr>cfgDefaultDailyLimit = None, cfgBonusPerCredential = Some 1,
                 cfgBonusValidityDays = Some 30, cfgPersistInterval = None\<rparr>,
      users = [(''maki_a'',
                \<lparr>credentials = [],
                 credentialBonuses =
                   Some [\<lparr>credentialId = ''cred_0'', grantedAt = 0, usedCount = 0\<rparr>,
                         \<lparr>credentialId = ''cred_1'', grantedAt = 1000000000, usedCount = 0\<rparr>],
                 userCreatedAt = 0\<rparr>)]\<rparr>"

definition exConsumedStore :: user_data_store where
  "exConsumedStore =
     \<lparr>config = \<lparr>cfgDefaultDailyLimit = None, cfgBonusPerCredential = Some 1,
                 cfgBonusValidityDays = Some 30, cfgPersistInterval = None\<rparr>,
      users = [(''maki_a'',
                \<lparr>credentials = [],
                 credentialBonuses =
                   Some [\<lparr>credentialId = ''cred_0'', grantedAt = 0, usedCount = 0\<rparr>,
                         \<lparr>credentialId = ''cred_1'', grantedAt = 1000000000, usedCount = 1\<rparr>],
                 userCreatedAt = 0\<rparr>)]\<rparr>"

definition exFinishedRun :: potluck_run where
  "exFinishedRun =
     \<lparr>bonusMutex = \<lparr>locked = False, waiting = []\<rparr>,
      calls = [Returned True, Returned False],
      userDataStore = exConsumedStore\<rparr>"

text \<open>The first tenant then registers a second credential file.\<close>

definition exTwoCredStore :: user_data_store where
  "exTwoCredStore =
     snd (addUserCredential 3000 ''cred_3000_cccccc'' ''maki_a''
            \<lparr>infoPath = ''configs/kiro/2_token/token.json'', infoProvider = None,
              infoAuthMethod = None\<rparr> exSharedPathStore)"

section \<open>Auxiliary facts\<close>

lemma AList_update_same: "map_of al k = Some v \<Longrightarrow> AList.update k v al = al"
  by (induction al) (auto split: if_splits)

lemma consumeBonus_loop_False: "fst (consumeBonus_loop per bs is) = False \<Longrightarrow> snd (consumeBonus_loop per bs is) = bs"
  by (induction "is") (auto simp: Let_def split: if_splits)

lemma consumeBonus_loop_ok_iff:
  "fst (consumeBonus_loop per bs is) \<longleftrightarrow> (\<exists>i\<in>set is. per - usedCount (bs ! i) > 0)"
  by (induction "is") (auto simp: Let_def)

lemma set_sortedBonuses:
  "set (sortedBonuses now s bs) = {i. i < length bs \<and> \<not> isBonusExpired now s (bs ! i)}"
  by (auto simp: sortedBonuses_def)

lemma consumeBonus_False_same: 
  assumes "fst (consumeBonus now apiKey s) = False"
  shows "snd (consumeBonus now apiKey s) = s"
proof (cases "map_of (users s) apiKey")
  case None then show ?thesis by (simp add: consumeBonus_def)
next
  case (Some u)
  show ?thesis
  proof (cases "credentialBonuses u")
    case None with Some show ?thesis by (simp add: consumeBonus_def)
  next
    case (Some bs)
    let ?r = "consumeBonus_loop (bonusPerCredential (getFullConfig s)) bs (sortedBonuses now s bs)"
    from assms \<open>map_of (users s) apiKey = Some u\<close> Some have "fst ?r = False"
      by (simp add: consumeBonus_def split: prod.splits)
    then have "snd ?r = bs" by (rule consumeBonus_loop_False)
    then have "u\<lparr>credentialBonuses := Some (snd ?r)\<rparr> = u" using Some by simp
    then show ?thesis using \<open>map_of (users s) apiKey = Some u\<close> Some
      by (simp add: consumeBonus_def AList_update_same case_prod_beta)
  qed
qed

lemma consumeBonus_ok_iff:
  "fst (consumeBonus now apiKey s) \<longleftrightarrow>
     (\<exists>u bs. map_of (users s) apiKey = Some u \<and> credentialBonuses u = Some bs
        \<and> (\<exists>b\<in>set bs. \<not> isBonusExpired now s b \<and> bonusPerCredential (getFullConfig s) - usedCount b > 0))"
proof (cases "map_of (users s) apiKey")
  case None then show ?thesis by (simp add: consumeBonus_def)
next
  case (Some u)
  show ?thesis
  proof (cases "credentialBonuses u")
    case None with Some show ?thesis by (simp add: consumeBonus_def)
  next
    case (Some bs)
    let ?per = "bonusPerCredential (getFullConfig s)"
    have "fst (consumeBonus now apiKey s) = fst (consumeBonus_loop ?per bs (sortedBonuses now s bs))"
      using \<open>map_of (users s) apiKey = Some u\<close> Some
      by (simp add: consumeBonus_def split: prod.splits)
    also have "\<dots> \<longleftrightarrow> (\<exists>i\<in>set (sortedBonuses now s bs). ?per - usedCount (bs ! i) > 0)"
      by (rule consumeBonus_loop_ok_iff)
    also have "\<dots> \<longleftrightarrow> (\<exists>b\<in>set bs. \<not> isBonusExpired now s b \<and> ?per - usedCount b > 0)"
      unfolding set_sortedBonuses by (fastforce simp: in_set_conv_nth)
    finally show ?thesis using \<open>map_of (users s) apiKey = Some u\<close> Some by simp
  qed
qed

lemma isBonusExpired_cong: "config s' = config s \<Longrightarrow> isBonusExpired now s' b = isBonusExpired now s b"
  by (simp add: isBonusExpired_def calculateExpiresAt_def getFullConfig_def)

lemma isBonusExpired_grantedAt:
  "grantedAt b' = grantedAt b \<Longrightarrow> isBonusExpired now s b' = isBonusExpired now s b"
  by (simp add: isBonusExpired_def)

lemma getFullConfig_cong: "config s' = config s \<Longrightarrow> getFullConfig s' = getFullConfig s"
  by (simp add: getFullConfig_def)

lemma consumeBonus_loop_length [simp]: "length (snd (consumeBonus_loop per bs is)) = length bs"
  by (induction "is") (auto simp: Let_def)

lemma consumeBonus_loop_nth_other:
  "j \<notin> set is \<Longrightarrow> snd (consumeBonus_loop per bs is) ! j = bs ! j"
  by (induction "is") (auto simp: Let_def)

lemma consumeBonus_user:
  assumes "map_of (users s) apiKey = Some u" and "credentialBonuses u = Some bs"
  shows "consumeBonus now apiKey s =
           (fst (consumeBonus_loop (bonusPerCredential (getFullConfig s)) bs (sortedBonuses now s bs)),
            s\<lparr>users := AList.update apiKey
                 (u\<lparr>credentialBonuses :=
                      Some (snd (consumeBonus_loop (bonusPerCredential (getFullConfig s)) bs
                                  (sortedBonuses now s bs)))\<rparr>) (users s)\<rparr>)"
  using assms by (simp add: consumeBonus_def case_prod_beta)

lemma userGrants_update [simp]:
  "userGrants (s\<lparr>users := AList.update apiKey u (users s)\<rparr>) apiKey = credentialBonuses u"
  by (simp add: userGrants_def update_conv')

lemma calculateBonusRemaining_loop_append:
  "calculateBonusRemaining_loop now s h (xs @ ys) tot =
     calculateBonusRemaining_loop now s h ys (calculateBonusRemaining_loop now s h xs tot)"
  by (induction xs arbitrary: tot) (auto simp: Let_def)

lemma calculateBonusRemaining_loop_cong:
  "config s' = config s \<Longrightarrow>
     calculateBonusRemaining_loop now s' h bs tot = calculateBonusRemaining_loop now s h bs tot"
  by (induction bs arbitrary: tot)
     (simp_all add: Let_def isBonusExpired_cong [of s' s] getFullConfig_cong [of s' s])


lemma two_element_list:
  assumes "distinct xs" and "set xs = {a, b}" and "a \<noteq> b"
  shows "xs = [a, b] \<or> xs = [b, a]"
proof -
  have "length xs = 2"
    using distinct_card [OF assms(1)] assms(2,3) by simp
  then obtain x y where "xs = [x, y]"
    by (auto simp: length_Suc_conv numeral_2_eq_2)
  with assms(2) show ?thesis
    by (auto simp: doubleton_eq_iff)
qed

lemma sortedBonuses_two:
  assumes "i < length bs" and "j < length bs"
    and "grantedAt (bs ! i) < grantedAt (bs ! j)"
    and "\<forall>l<length bs. (\<not> isBonusExpired now s (bs ! l)) = (l = i \<or> l = j)"
  shows "sortedBonuses now s bs = [i, j]"
proof -
  let ?l = "sortedBonuses now s bs"
  have st: "set ?l = {i, j}"
    using assms(1,2,4) by (auto simp: set_sortedBonuses)
  have d: "distinct ?l"
    by (simp add: sortedBonuses_def)
  have ne: "i \<noteq> j"
    using assms(3) by auto
  have srt: "sorted (map (\<lambda>i. grantedAt (bs ! i)) ?l)"
    by (simp add: sortedBonuses_def)
  from two_element_list [OF d st ne] show ?thesis
  proof
    assume "?l = [i, j]" then show ?thesis .
  next
    assume "?l = [j, i]"
    with srt assms(3) show ?thesis by simp
  qed
qed

lemma consumeBonus_two:
  assumes "map_of (users s) apiKey = Some u" and "credentialBonuses u = Some bs"
    and "i < length bs" and "j < length bs"
    and "grantedAt (bs ! i) < grantedAt (bs ! j)"
    and "\<forall>l<length bs. (\<not> isBonusExpired now s (bs ! l)) = (l = i \<or> l = j)"
  shows "consumeBonus now apiKey s =
           (if usedCount (bs ! i) < bonusPerCredential (getFullConfig s) then
              (True, s\<lparr>users := AList.update apiKey
                  (u\<lparr>credentialBonuses :=
                       Some (bs[i := (bs ! i)\<lparr>usedCount := usedCount (bs ! i) + 1\<rparr>])\<rparr>) (users s)\<rparr>)
            else if usedCount (bs ! j) < bonusPerCredential (getFullConfig s) then
              (True, s\<lparr>users := AList.update apiKey
                  (u\<lparr>credentialBonuses :=
                       Some (bs[j := (bs ! j)\<lparr>usedCount := usedCount (bs ! j) + 1\<rparr>])\<rparr>) (users s)\<rparr>)
            else (False, s\<lparr>users := AList.update apiKey
                  (u\<lparr>credentialBonuses := Some bs\<rparr>) (users s)\<rparr>))"
  by (simp add: consumeBonus_user [OF assms(1,2)] sortedBonuses_two [OF assms(3-6)] Let_def)

lemma AList_update_update [simp]:
  "AList.update k v (AList.update k w al) = AList.update k v al"
  by (induction al) auto

lemma consumeBonus_calls_first:
  assumes "map_of (users s) apiKey = Some u" and "credentialBonuses u = Some bs"
    and "i < length bs" and "j < length bs"
    and "grantedAt (bs ! i) < grantedAt (bs ! j)"
    and "\<forall>now\<in>set nows. \<forall>l<length bs. (\<not> isBonusExpired now s (bs ! l)) = (l = i \<or> l = j)"
    and "usedCount (bs ! i) + int (length nows) \<le> bonusPerCredential (getFullConfig s)"
  shows "consumeBonus_calls nows apiKey s =
           (replicate (length nows) True,
            s\<lparr>users := AList.update apiKey
                 (u\<lparr>credentialBonuses :=
                      Some (bs[i := (bs ! i)\<lparr>usedCount := usedCount (bs ! i) + int (length nows)\<rparr>])\<rparr>)
                 (users s)\<rparr>)"
  using assms
proof (induction nows arbitrary: s u bs)
  case Nil
  have "u\<lparr>credentialBonuses := Some (bs[i := bs ! i])\<rparr> = u"
    using Nil.prems(2) by simp
  then show ?case
    using Nil.prems(1) by (simp add: AList_update_same)
next
  case (Cons now nows)
  let ?bs1 = "bs[i := (bs ! i)\<lparr>usedCount := usedCount (bs ! i) + 1\<rparr>]"
  let ?u1 = "u\<lparr>credentialBonuses := Some ?bs1\<rparr>"
  let ?s1 = "s\<lparr>users := AList.update apiKey ?u1 (users s)\<rparr>"
  have live: "\<forall>l<length bs. (\<not> isBonusExpired now s (bs ! l)) = (l = i \<or> l = j)"
    using Cons.prems(6) by simp
  have lt: "usedCount (bs ! i) < bonusPerCredential (getFullConfig s)"
    using Cons.prems(7) by simp
  have step: "consumeBonus now apiKey s = (True, ?s1)"
    using consumeBonus_two [OF Cons.prems(1-5) live] lt by simp
  have ne: "i \<noteq> j" using Cons.prems(5) by auto
  have g: "\<And>l. l < length bs \<Longrightarrow> grantedAt (?bs1 ! l) = grantedAt (bs ! l)"
    using Cons.prems(3) by (simp add: nth_list_update)
  have exp: "\<And>t l. l < length bs \<Longrightarrow> isBonusExpired t ?s1 (?bs1 ! l) = isBonusExpired t s (bs ! l)"
    using Cons.prems(3)
    by (simp add: isBonusExpired_def calculateExpiresAt_def getFullConfig_def nth_list_update)
  have 1: "map_of (users ?s1) apiKey = Some ?u1" by (simp add: update_conv')
  have 2: "credentialBonuses ?u1 = Some ?bs1" by simp
  have 3: "i < length ?bs1" "j < length ?bs1" using Cons.prems(3,4) by simp_all
  have 5: "grantedAt (?bs1 ! i) < grantedAt (?bs1 ! j)"
    using Cons.prems(3,4,5) g by simp
  have 6: "\<forall>t\<in>set nows. \<forall>l<length ?bs1. (\<not> isBonusExpired t ?s1 (?bs1 ! l)) = (l = i \<or> l = j)"
    using Cons.prems(6) exp by simp
  have cfg: "getFullConfig ?s1 = getFullConfig s" by (simp add: getFullConfig_def)
  have 7: "usedCount (?bs1 ! i) + int (length nows) \<le> bonusPerCredential (getFullConfig ?s1)"
    using Cons.prems(3,7) cfg by simp
  have rest: "consumeBonus_calls nows apiKey ?s1 =
           (replicate (length nows) True,
            ?s1\<lparr>users := AList.update apiKey
                 (?u1\<lparr>credentialBonuses :=
                      Some (?bs1[i := (?bs1 ! i)\<lparr>usedCount := usedCount (?bs1 ! i) + int (length nows)\<rparr>])\<rparr>)
                 (users ?s1)\<rparr>)"
    by (rule Cons.IH [OF 1 2 3 5 6 7])
  have fin: "?s1\<lparr>users := AList.update apiKey
                 (?u1\<lparr>credentialBonuses :=
                      Some (?bs1[i := (?bs1 ! i)\<lparr>usedCount := usedCount (?bs1 ! i) + int (length nows)\<rparr>])\<rparr>)
                 (users ?s1)\<rparr>
             = s\<lparr>users := AList.update apiKey
                 (u\<lparr>credentialBonuses :=
                      Some (bs[i := (bs ! i)\<lparr>usedCount := usedCount (bs ! i) + int (length (now # nows))\<rparr>])\<rparr>)
                 (users s)\<rparr>"
    using Cons.prems(3) by (simp add: algebra_simps)
  have "consumeBonus_calls (now # nows) apiKey s =
          (True # replicate (length nows) True,
           ?s1\<lparr>users := AList.update apiKey
                 (?u1\<lparr>credentialBonuses :=
                      Some (?bs1[i := (?bs1 ! i)\<lparr>usedCount := usedCount (?bs1 ! i) + int (length nows)\<rparr>])\<rparr>)
                 (users ?s1)\<rparr>)"
    by (simp only: consumeBonus_calls.simps step rest prod.case)
  then show ?case
    by (simp only: fin replicate_Suc [symmetric] length_Cons)
qed

lemma findIndex_first:
  "\<forall>y\<in>set pre. \<not> P y \<Longrightarrow> P x \<Longrightarrow> findIndex P (pre @ x # rest) = Some (length pre)"
  by (induction pre) auto

lemma findIndex_None_iff: "findIndex P xs = None \<longleftrightarrow> (\<forall>x\<in>set xs. \<not> P x)"
  by (induction xs) (auto split: option.splits)

lemma findIndex_SomeD: "findIndex P xs = Some i \<Longrightarrow> i < length xs \<and> P (xs ! i)"
  by (induction xs arbitrary: i) (auto split: option.splits if_splits)

lemma splice1_middle [simp]: "splice1 (length pre) (pre @ x # rest) = pre @ rest"
  by (simp add: splice1_def)

lemma sync_removeLoop_filter:
  "\<forall>y\<in>set pre. \<not> Q y \<Longrightarrow>
     sync_removeLoop (filter Q rest) (pre @ rest) r
       = (pre @ filter (\<lambda>b. \<not> Q b) rest, r + length (filter Q rest))"
proof (induction rest arbitrary: pre r)
  case Nil
  then show ?case by simp
next
  case (Cons x rest)
  show ?case
  proof (cases "Q x")
    case True
    have "\<forall>y\<in>set pre. \<not> y = x" using Cons.prems True by auto
    then have "findIndex (\<lambda>y. y = x) (pre @ x # rest) = Some (length pre)"
      by (intro findIndex_first) simp_all
    then show ?thesis
      using True Cons.IH [OF Cons.prems, of "r + 1"] by simp
  next
    case False
    have "\<forall>y\<in>set (pre @ [x]). \<not> Q y" using Cons.prems False by simp
    from Cons.IH [OF this, of r] False show ?thesis by simp
  qed
qed

lemma sync_addLoop_shape:
  "\<exists>new. fst (sync_addLoop now cs bs a) = bs @ new
         \<and> snd (sync_addLoop now cs bs a) = a + length new
         \<and> (\<forall>b\<in>set new. credentialId b \<in> healthyIds cs)"
proof (induction cs arbitrary: bs a)
  case Nil
  then show ?case by simp
next
  case (Cons c cs)
  have sub: "healthyIds cs \<subseteq> healthyIds (c # cs)" by (auto simp: healthyIds_def)
  show ?case
  proof (cases "isHealthy c = Some True \<and> \<not> list_ex (\<lambda>b. credentialId b = healthId c) bs")
    case False
    from Cons.IH [of bs a] obtain new where
      "fst (sync_addLoop now cs bs a) = bs @ new" "snd (sync_addLoop now cs bs a) = a + length new"
      "\<forall>b\<in>set new. credentialId b \<in> healthyIds cs" by blast
    with False sub show ?thesis by auto
  next
    case True
    let ?g = "\<lparr>credentialId = healthId c,
               grantedAt = (case healthAddedAt c of None \<Rightarrow> now | Some t \<Rightarrow> t), usedCount = 0\<rparr>"
    from Cons.IH [of "bs @ [?g]" "a + 1"] obtain new where
      n: "fst (sync_addLoop now cs (bs @ [?g]) (a + 1)) = (bs @ [?g]) @ new"
      "snd (sync_addLoop now cs (bs @ [?g]) (a + 1)) = a + 1 + length new"
      "\<forall>b\<in>set new. credentialId b \<in> healthyIds cs" by blast
    have "healthId c \<in> healthyIds (c # cs)" using True by (simp add: healthyIds_def)
    with n sub True show ?thesis
      by (intro exI [of _ "?g # new"]) auto
  qed
qed

lemma sync_addLoop_covers:
  "c \<in> set cs \<Longrightarrow> isHealthy c = Some True \<Longrightarrow>
     \<exists>b\<in>set (fst (sync_addLoop now cs bs a)). credentialId b = healthId c"
proof (induction cs arbitrary: bs a)
  case Nil
  then show ?case by simp
next
  case (Cons x cs)
  have keep: "\<And>bs a. \<exists>b\<in>set bs. credentialId b = healthId c \<Longrightarrow>
     \<exists>b\<in>set (fst (sync_addLoop now cs bs a)). credentialId b = healthId c"
    using sync_addLoop_shape [of now cs] by (metis Un_iff set_append)
  show ?case
  proof (cases "c = x")
    case True
    show ?thesis
    proof (cases "list_ex (\<lambda>b. credentialId b = healthId x) bs")
      case ex: True
      then have "\<exists>b\<in>set bs. credentialId b = healthId c" using True by (simp add: list_ex_iff)
      from keep [OF this] ex Cons.prems(2) True show ?thesis by simp
    next
      case nex: False
      let ?g = "\<lparr>credentialId = healthId x,
               grantedAt = (case healthAddedAt x of None \<Rightarrow> now | Some t \<Rightarrow> t), usedCount = 0\<rparr>"
      have "\<exists>b\<in>set (bs @ [?g]). credentialId b = healthId c" using True by simp
      from keep [OF this] nex Cons.prems(2) True show ?thesis by simp
    qed
  next
    case False
    then have "c \<in> set cs" using Cons.prems(1) by simp
    from Cons.IH [OF this Cons.prems(2)] show ?thesis by simp
  qed
qed

lemma sync_addLoop_none:
  "\<forall>c\<in>set cs. isHealthy c = Some True \<longrightarrow> (\<exists>b\<in>set bs. credentialId b = healthId c) \<Longrightarrow>
     sync_addLoop now cs bs a = (bs, a)"
  by (induction cs) (auto simp: list_ex_iff)

lemma sync_addLoop_added_gt:
  "c \<in> set cs \<Longrightarrow> isHealthy c = Some True \<Longrightarrow> \<not> (\<exists>b\<in>set bs. credentialId b = healthId c) \<Longrightarrow>
     a < snd (sync_addLoop now cs bs a)"
proof (induction cs arbitrary: bs a)
  case Nil
  then show ?case by simp
next
  case (Cons x cs)
  have mono: "\<And>bs a. a \<le> snd (sync_addLoop now cs bs a)"
    using sync_addLoop_shape [of now cs] by (metis le_add1)
  show ?case
  proof (cases "isHealthy x = Some True \<and> \<not> list_ex (\<lambda>b. credentialId b = healthId x) bs")
    case True
    let ?g = "\<lparr>credentialId = healthId x,
               grantedAt = (case healthAddedAt x of None \<Rightarrow> now | Some t \<Rightarrow> t), usedCount = 0\<rparr>"
    have "a + 1 \<le> snd (sync_addLoop now cs (bs @ [?g]) (a + 1))" by (rule mono)
    with True show ?thesis by simp
  next
    case False
    then have "c \<noteq> x" using Cons.prems(2,3) by (auto simp: list_ex_iff)
    then have "c \<in> set cs" using Cons.prems(1) by simp
    from Cons.IH [OF this Cons.prems(2,3)] False show ?thesis by auto
  qed
qed

lemma ensureUserData_config [simp]: "config (snd (ensureUserData now apiKey s)) = config s"
  by (simp add: ensureUserData_def Let_def)

lemma ensureUserData_lookup:
  "map_of (users (snd (ensureUserData now apiKey s))) apiKey = Some (fst (ensureUserData now apiKey s))"
  by (simp add: ensureUserData_def Let_def update_conv')

lemma ensureUserData_bonuses:
  "credentialBonuses (fst (ensureUserData now apiKey s))
     = Some (case userGrants s apiKey of None \<Rightarrow> [] | Some l \<Rightarrow> l)"
  by (simp add: ensureUserData_def Let_def userGrants_def split: option.splits)

lemma ensureUserData_present:
  "map_of (users s) apiKey = Some u \<Longrightarrow> credentialBonuses u = Some bs \<Longrightarrow>
     ensureUserData now apiKey s = (u, s)"
  by (simp add: ensureUserData_def Let_def AList_update_same)

text \<open>The grants a pass starts from, after \<open>ensureUserData\<close>.\<close>

lemma syncCredentialBonuses_unfold:
  fixes now apiKey creds s
  defines "hs \<equiv> healthyIds creds"
    and "bs0 \<equiv> (case userGrants s apiKey of None \<Rightarrow> [] | Some l \<Rightarrow> l)"
  defines "bs1 \<equiv> fst (sync_addLoop now creds bs0 0)"
  defines "g \<equiv> filter (\<lambda>b. credentialId b \<in> hs \<and> \<not> isBonusExpired now s b) bs1"
  defines "s2 \<equiv> (snd (ensureUserData now apiKey s))\<lparr>users :=
                   AList.update apiKey ((fst (ensureUserData now apiKey s))\<lparr>credentialBonuses := Some g\<rparr>)
                     (users (snd (ensureUserData now apiKey s)))\<rparr>"
  shows "syncCredentialBonuses now apiKey creds s =
           (\<lparr>added = snd (sync_addLoop now creds bs0 0),
             removed = length (filter (\<lambda>b. credentialId b \<notin> hs) bs1),
             syncBonusRemaining = calculateBonusRemaining now s2 apiKey (Some hs)\<rparr>, s2)"
proof -
  have rm: "sync_removeLoop (filter (\<lambda>b. credentialId b \<notin> hs) bs1) bs1 0
              = (filter (\<lambda>b. credentialId b \<in> hs) bs1, length (filter (\<lambda>b. credentialId b \<notin> hs) bs1))"
    using sync_removeLoop_filter [of "[]" "\<lambda>b. credentialId b \<notin> hs" bs1 0] by simp
  have ex: "\<And>b. isBonusExpired now (snd (ensureUserData now apiKey s)) b = isBonusExpired now s b"
    by (simp add: isBonusExpired_def calculateExpiresAt_def getFullConfig_def)
  show ?thesis
    unfolding syncCredentialBonuses_def
    by (simp add: case_prod_beta Let_def ensureUserData_bonuses rm ex
        hs_def [symmetric] bs0_def [symmetric] bs1_def [symmetric] g_def s2_def)
qed

lemma syncCredentialBonuses_after:
  fixes now apiKey creds s
  defines "g \<equiv> filter (\<lambda>b. credentialId b \<in> healthyIds creds \<and> \<not> isBonusExpired now s b)
                (fst (sync_addLoop now creds (case userGrants s apiKey of None \<Rightarrow> [] | Some l \<Rightarrow> l) 0))"
  defines "s1 \<equiv> snd (syncCredentialBonuses now apiKey creds s)"
  shows "map_of (users s1) apiKey = Some ((fst (ensureUserData now apiKey s))\<lparr>credentialBonuses := Some g\<rparr>)"
    and "userGrants s1 apiKey = Some g"
    and "config s1 = config s"
    and "syncBonusRemaining (fst (syncCredentialBonuses now apiKey creds s))
           = calculateBonusRemaining now s1 apiKey (Some (healthyIds creds))"
  unfolding s1_def g_def
  by (simp_all add: syncCredentialBonuses_unfold update_conv' userGrants_def)

lemmas sync_eval_simps =
  syncCredentialBonuses_def ensureUserData_def healthyIds_def Let_def
  isBonusExpired_def calculateExpiresAt_def getFullConfig_def nullish_def DEFAULT_CONFIG_def
  calculateBonusRemaining_def splice1_def userGrants_def exConfig_def

lemma exSnapshot_first_pass:
  "syncCredentialBonuses 3000000000 ''maki_a'' exSnapshot exOneGrantStore =
     (\<lparr>added = 1, removed = 0, syncBonusRemaining = 3\<rparr>,
      \<lparr>config = exConfig,
       users = [(''maki_a'',
                \<lparr>credentials = [],
                 credentialBonuses =
                   Some [\<lparr>credentialId = ''cred_1'', grantedAt = 1000000000, usedCount = 1\<rparr>,
                         \<lparr>credentialId = ''cred_3'', grantedAt = 2000000000, usedCount = 0\<rparr>],
                 userCreatedAt = 0\<rparr>)]\<rparr>)"
  by (simp add: sync_eval_simps exOneGrantStore_def exSnapshot_def)

lemma set_AList_update:
  "(k', v') \<in> set (AList.update k v al) \<Longrightarrow> (k', v') = (k, v) \<or> (k', v') \<in> set al"
  by (induction al) (auto split: if_splits)

lemma all_AList_update:
  "\<forall>(k, u)\<in>set al. P u \<Longrightarrow> P v \<Longrightarrow> \<forall>(k, u)\<in>set (AList.update k0 v al). P u"
  using set_AList_update by fastforce

lemma all_AList_delete:
  "\<forall>(k, u)\<in>set al. P u \<Longrightarrow> \<forall>(k, u)\<in>set (AList.delete k0 al). P u"
  by (auto simp: AList.delete_eq)

lemma all_map_of:
  "\<forall>(k, u)\<in>set al. P u \<Longrightarrow> map_of al k = Some v \<Longrightarrow> P v"
  by (auto dest: map_of_SomeD)

lemma distinct_splice1: "distinct xs \<Longrightarrow> distinct (splice1 i xs)"
proof -
  assume d: "distinct xs"
  have "distinct (take i xs @ drop i xs)" using d by simp
  then have "set (take i xs) \<inter> set (drop i xs) = {}" by (simp only: distinct_append) 
  moreover have "set (drop (Suc i) xs) \<subseteq> set (drop i xs)"
    by (simp add: set_drop_subset_set_drop)
  ultimately have "set (take i xs) \<inter> set (drop (Suc i) xs) = {}" by blast
  then show ?thesis using d by (simp add: splice1_def)
qed

lemma map_splice1: "map f (splice1 i xs) = splice1 i (map f xs)"
  by (simp add: splice1_def take_map drop_map)

lemma ensureUserData_paths:
  assumes "\<forall>(k, u)\<in>set (users s). distinct (map path (credentials u))"
  shows "distinct (map path (credentials (fst (ensureUserData now apiKey s))))"
    and "\<forall>(k, u)\<in>set (users (snd (ensureUserData now apiKey s))). distinct (map path (credentials u))"
proof -
  show 1: "distinct (map path (credentials (fst (ensureUserData now apiKey s))))"
  proof (cases "map_of (users s) apiKey")
    case None
    then show ?thesis by (simp add: ensureUserData_def Let_def)
  next
    case (Some u0)
    from all_map_of [OF assms Some] have "distinct (map path (credentials u0))" .
    with Some show ?thesis
      by (simp add: ensureUserData_def Let_def split: option.splits)
  qed
  have "snd (ensureUserData now apiKey s)
          = s\<lparr>users := AList.update apiKey (fst (ensureUserData now apiKey s)) (users s)\<rparr>"
    by (simp add: ensureUserData_def Let_def)
  then show "\<forall>(k, u)\<in>set (users (snd (ensureUserData now apiKey s))). distinct (map path (credentials u))"
    using all_AList_update [OF assms 1] by simp
qed

lemma addUserCredential_paths:
  assumes "\<forall>(k, u)\<in>set (users s). distinct (map path (credentials u))"
  shows "\<forall>(k, u)\<in>set (users (snd (addUserCredential now freshId apiKey info s))).
           distinct (map path (credentials u))"
proof -
  let ?e = "ensureUserData now apiKey s"
  let ?cs = "credentials (fst ?e)"
  have d: "distinct (map path ?cs)" using assms by (rule ensureUserData_paths(1))
  have inv: "\<forall>(k, u)\<in>set (users (snd ?e)). distinct (map path (credentials u))"
    using assms by (rule ensureUserData_paths(2))
  show ?thesis
  proof (cases "findIndex (\<lambda>c. path c = infoPath info) ?cs")
    case None
    then have "\<forall>c\<in>set ?cs. path c \<noteq> infoPath info"
      by (simp add: findIndex_None_iff)
    then have "infoPath info \<notin> set (map path ?cs)" by auto
    with d have "distinct (map path (credentials ((fst ?e)\<lparr>credentials := ?cs @ [\<lparr>credId = freshId,
                    path = infoPath info,
                    provider = orDefault (infoProvider info) ''claude-kiro-oauth'',
                    authMethod = orDefault (infoAuthMethod info) ''unknown'',
                    addedAt = now\<rparr>]\<rparr>)))" by simp
    from all_AList_update [where P = "\<lambda>u. distinct (map path (credentials u))", OF inv this]
    show ?thesis using None
      by (simp add: addUserCredential_def case_prod_beta Let_def)
  next
    case (Some i)
    from findIndex_SomeD [OF Some] have i: "i < length ?cs" "path (?cs ! i) = infoPath info" by simp_all
    let ?c' = "\<lparr>credId = credId (?cs ! i), path = infoPath info,
                    provider = orDefault (infoProvider info) ''claude-kiro-oauth'',
                    authMethod = orDefault (infoAuthMethod info) ''unknown'',
                    addedAt = addedAt (?cs ! i)\<rparr>"
    have "map path (?cs[i := ?c']) = (map path ?cs)[i := infoPath info]"
      by (simp add: map_update)
    also have "\<dots> = map path ?cs"
      using i by (metis list_update_id nth_map)
    finally have "distinct (map path (credentials ((fst ?e)\<lparr>credentials := ?cs[i := ?c']\<rparr>)))"
      using d by simp
    from all_AList_update [where P = "\<lambda>u. distinct (map path (credentials u))", OF inv this]
    show ?thesis using Some
      by (simp add: addUserCredential_def case_prod_beta Let_def)
  qed
qed

lemma removeUserCredential_paths:
  assumes "\<forall>(k, u)\<in>set (users s). distinct (map path (credentials u))"
  shows "\<forall>(k, u)\<in>set (users (snd (removeUserCredential apiKey cid s))).
           distinct (map path (credentials u))"
proof (cases "map_of (users s) apiKey")
  case None
  with assms show ?thesis by (simp add: removeUserCredential_def)
next
  case (Some u0)
  from all_map_of [OF assms Some] have d: "distinct (map path (credentials u0))" .
  show ?thesis
  proof (cases "findIndex (\<lambda>c. credId c = cid) (credentials u0)")
    case None
    with Some assms show ?thesis by (simp add: removeUserCredential_def)
  next
    case (Some i)
    have "distinct (map path (credentials (u0\<lparr>credentials := splice1 i (credentials u0)\<rparr>)))"
      using d by (simp add: map_splice1 distinct_splice1)
    from all_AList_update [where P = "\<lambda>u. distinct (map path (credentials u))", OF assms this]
    show ?thesis using Some \<open>map_of (users s) apiKey = Some u0\<close>
      by (simp add: removeUserCredential_def)
  qed
qed

lemma migrateUserCredentials_paths:
  assumes "\<forall>(k, u)\<in>set (users s). distinct (map path (credentials u))"
  shows "\<forall>(k, u)\<in>set (users (snd (migrateUserCredentials oldKey newKey s))).
           distinct (map path (credentials u))"
proof (cases "map_of (users s) oldKey")
  case None
  with assms show ?thesis by (simp add: migrateUserCredentials_def)
next
  case (Some u0)
  from all_map_of [OF assms Some] have d: "distinct (map path (credentials u0))" .
  from all_AList_delete [OF all_AList_update [where P = "\<lambda>u. distinct (map path (credentials u))", OF assms d]]
  show ?thesis using Some by (simp add: migrateUserCredentials_def)
qed

lemma consumeBonus_paths:
  assumes "\<forall>(k, u)\<in>set (users s). distinct (map path (credentials u))"
  shows "\<forall>(k, u)\<in>set (users (snd (consumeBonus now apiKey s))).
           distinct (map path (credentials u))"
proof (cases "map_of (users s) apiKey")
  case None
  with assms show ?thesis by (simp add: consumeBonus_def)
next
  case (Some u0)
  from all_map_of [OF assms Some] have d: "distinct (map path (credentials u0))" .
  show ?thesis
  proof (cases "credentialBonuses u0")
    case None
    with Some assms show ?thesis by (simp add: consumeBonus_def)
  next
    case (Some bs)
    have "\<And>bs'. distinct (map path (credentials (u0\<lparr>credentialBonuses := Some bs'\<rparr>)))"
      using d by simp
    from all_AList_update [where P = "\<lambda>u. distinct (map path (credentials u))", OF assms this]
    show ?thesis
      by (simp add: consumeBonus_user [OF \<open>map_of (users s) apiKey = Some u0\<close> Some])
  qed
qed

lemma syncCredentialBonuses_paths:
  assumes "\<forall>(k, u)\<in>set (users s). distinct (map path (credentials u))"
  shows "\<forall>(k, u)\<in>set (users (snd (syncCredentialBonuses now apiKey creds s))).
           distinct (map path (credentials u))"
proof -
  let ?e = "ensureUserData now apiKey s"
  have d: "\<And>g. distinct (map path (credentials ((fst ?e)\<lparr>credentialBonuses := Some g\<rparr>)))"
    using ensureUserData_paths(1) [OF assms] by simp
  have inv: "\<forall>(k, u)\<in>set (users (snd ?e)). distinct (map path (credentials u))"
    using assms by (rule ensureUserData_paths(2))
  from all_AList_update [where P = "\<lambda>u. distinct (map path (credentials u))", OF inv d]
  show ?thesis
    by (simp add: syncCredentialBonuses_unfold)
qed

lemma reachable_paths:
  "reachable s \<Longrightarrow> \<forall>(k, u)\<in>set (users s). distinct (map path (credentials u))"
proof (induction rule: reachable.induct)
  case (reach_init c)
  show ?case by simp
next
  case (reach_ensure s now apiKey)
  then show ?case by (intro ensureUserData_paths(2))
next
  case (reach_add s now freshId apiKey info)
  then show ?case by (intro addUserCredential_paths)
next
  case (reach_remove s apiKey cid)
  then show ?case by (intro removeUserCredential_paths)
next
  case (reach_migrate s oldKey newKey)
  then show ?case by (intro migrateUserCredentials_paths)
next
  case (reach_consume s now apiKey)
  then show ?case by (intro consumeBonus_paths)
next
  case (reach_sync s now apiKey creds)
  then show ?case by (intro syncCredentialBonuses_paths)
qed

lemma exSharedPathStore_eval:
  "exSharedPathStore =
     \<lparr>config = exConfig,
      users = [(''maki_a'',
                \<lparr>credentials = [\<lparr>credId = ''cred_1000_aaaaaa'', path = ''configs/kiro/1_token/token.json'',
                                  provider = ''claude-kiro-oauth'', authMethod = ''unknown'',
                                  addedAt = 1000\<rparr>],
                 credentialBonuses = Some [], userCreatedAt = 1000\<rparr>),
               (''maki_b'',
                \<lparr>credentials = [\<lparr>credId = ''cred_2000_bbbbbb'', path = ''configs/kiro/1_token/token.json'',
                                  provider = ''claude-kiro-oauth'', authMethod = ''unknown'',
                                  addedAt = 2000\<rparr>],
                 credentialBonuses = Some [], userCreatedAt = 2000\<rparr>)]\<rparr>"
  by (simp add: exSharedPathStore_def exCredentialInfo_def exEmptyStore_def addUserCredential_def
      ensureUserData_def orDefault_def Let_def)

lemma exSharedPathStore_reachable: "reachable exSharedPathStore"
  unfolding exSharedPathStore_def exEmptyStore_def
  by (intro reach_add reach_init)

lemma mutexInv_init: "mutexInv (concurrentCalls N s)"
  by (auto simp: mutexInv_def concurrentCalls_def)

lemma mutexInv_acquire:
  assumes "mutexInv r" and "t < length (calls r)" and "calls r ! t = Calling"
    and "acquire t (bonusMutex r) = (resolved, m')"
  shows "mutexInv (r\<lparr>bonusMutex := m', calls := (calls r)[t := if resolved then Resumed else Queued]\<rparr>)"
proof -
  let ?ts = "calls r" and ?m = "bonusMutex r"
  from assms(1) have
    d: "distinct (waiting ?m)" and
    q: "set (waiting ?m) = {t. t < length ?ts \<and> ?ts ! t = Queued}" and
    l: "locked ?m \<longleftrightarrow> (\<exists>t<length ?ts. holdsMutex (?ts ! t))" and
    u: "\<And>a b. a < length ?ts \<Longrightarrow> b < length ?ts \<Longrightarrow> holdsMutex (?ts ! a) \<Longrightarrow> holdsMutex (?ts ! b) \<Longrightarrow> a = b" and
    e: "\<not> locked ?m \<Longrightarrow> waiting ?m = []"
    unfolding mutexInv_def by blast+
  show ?thesis
  proof (cases "locked ?m")
    case False
    then have m': "m' = ?m\<lparr>locked := True\<rparr>" and res: "resolved"
      using assms(4) by (auto simp: acquire_def)
    let ?ts' = "?ts[t := Resumed]"
    have w: "waiting ?m = []" using e False by simp
    have nohold: "\<And>a. a < length ?ts \<Longrightarrow> \<not> holdsMutex (?ts ! a)"
      using l False by blast
    have 1: "distinct (waiting m')" using d m' by simp
    have 2: "set (waiting m') = {a. a < length ?ts' \<and> ?ts' ! a = Queued}"
      using q w m' assms(2,3) by (auto simp: nth_list_update)
    have 3: "locked m' \<longleftrightarrow> (\<exists>a<length ?ts'. holdsMutex (?ts' ! a))"
      using m' assms(2) by (auto intro!: exI [of _ t])
    have 4: "\<forall>a<length ?ts'. \<forall>b<length ?ts'. holdsMutex (?ts' ! a) \<longrightarrow> holdsMutex (?ts' ! b) \<longrightarrow> a = b"
      using nohold assms(2) by (auto simp: nth_list_update split: if_splits)
    have 5: "\<not> locked m' \<longrightarrow> waiting m' = []" using m' by simp
    from 1 2 3 4 5 show ?thesis
      unfolding mutexInv_def using res by simp
  next
    case True
    then have m': "m' = ?m\<lparr>waiting := waiting ?m @ [t]\<rparr>" and res: "\<not> resolved"
      using assms(4) by (auto simp: acquire_def)
    let ?ts' = "?ts[t := Queued]"
    have notin: "t \<notin> set (waiting ?m)" using q assms(3) by simp
    have hold: "\<And>a. a < length ?ts \<Longrightarrow> holdsMutex (?ts' ! a) = holdsMutex (?ts ! a)"
      using assms(2,3) by (auto simp: nth_list_update)
    have 1: "distinct (waiting m')" using d m' notin by simp
    have 2: "set (waiting m') = {a. a < length ?ts' \<and> ?ts' ! a = Queued}"
      using q m' assms(2,3) by (auto simp: nth_list_update)
    have 3: "locked m' \<longleftrightarrow> (\<exists>a<length ?ts'. holdsMutex (?ts' ! a))"
      using l m' hold by auto
    have 4: "\<forall>a<length ?ts'. \<forall>b<length ?ts'. holdsMutex (?ts' ! a) \<longrightarrow> holdsMutex (?ts' ! b) \<longrightarrow> a = b"
      using u hold by auto
    have 5: "\<not> locked m' \<longrightarrow> waiting m' = []" using m' True by simp
    from 1 2 3 4 5 show ?thesis
      unfolding mutexInv_def using res by simp
  qed
qed

lemma mutexInv_body:
  assumes "mutexInv r" and "t < length (calls r)" and "calls r ! t = Resumed"
  shows "mutexInv (r\<lparr>calls := (calls r)[t := BodyDone ok], userDataStore := s'\<rparr>)"
proof -
  let ?ts = "calls r" and ?m = "bonusMutex r"
  let ?ts' = "?ts[t := BodyDone ok]"
  from assms(1) have
    d: "distinct (waiting ?m)" and
    q: "set (waiting ?m) = {t. t < length ?ts \<and> ?ts ! t = Queued}" and
    l: "locked ?m \<longleftrightarrow> (\<exists>t<length ?ts. holdsMutex (?ts ! t))" and
    u: "\<And>a b. a < length ?ts \<Longrightarrow> b < length ?ts \<Longrightarrow> holdsMutex (?ts ! a) \<Longrightarrow> holdsMutex (?ts ! b) \<Longrightarrow> a = b" and
    e: "\<not> locked ?m \<Longrightarrow> waiting ?m = []"
    unfolding mutexInv_def by blast+
  have hold: "\<And>a. a < length ?ts \<Longrightarrow> holdsMutex (?ts' ! a) = holdsMutex (?ts ! a)"
    using assms(2,3) by (auto simp: nth_list_update)
  have qd: "\<And>a. a < length ?ts \<Longrightarrow> (?ts' ! a = Queued) = (?ts ! a = Queued)"
    using assms(2,3) by (auto simp: nth_list_update)
  have 2: "set (waiting ?m) = {a. a < length ?ts' \<and> ?ts' ! a = Queued}"
    using q qd by auto
  have 3: "locked ?m \<longleftrightarrow> (\<exists>a<length ?ts'. holdsMutex (?ts' ! a))"
    using l hold by auto
  have 4: "\<forall>a<length ?ts'. \<forall>b<length ?ts'. holdsMutex (?ts' ! a) \<longrightarrow> holdsMutex (?ts' ! b) \<longrightarrow> a = b"
    using u hold by auto
  from d 2 3 4 e show ?thesis
    unfolding mutexInv_def by simp
qed

lemma mutexInv_release:
  assumes "mutexInv r" and "t < length (calls r)" and "calls r ! t = BodyDone ok"
    and "release (bonusMutex r) = (woken, m')"
  shows "mutexInv (r\<lparr>bonusMutex := m',
          calls := (case woken of None \<Rightarrow> calls r | Some n \<Rightarrow> (calls r)[n := Resumed])
                     [t := Returned ok]\<rparr>)"
proof -
  let ?ts = "calls r" and ?m = "bonusMutex r"
  from assms(1) have
    d: "distinct (waiting ?m)" and
    q: "set (waiting ?m) = {t. t < length ?ts \<and> ?ts ! t = Queued}" and
    l: "locked ?m \<longleftrightarrow> (\<exists>t<length ?ts. holdsMutex (?ts ! t))" and
    u: "\<And>a b. a < length ?ts \<Longrightarrow> b < length ?ts \<Longrightarrow> holdsMutex (?ts ! a) \<Longrightarrow> holdsMutex (?ts ! b) \<Longrightarrow> a = b" and
    e: "\<not> locked ?m \<Longrightarrow> waiting ?m = []"
    unfolding mutexInv_def by blast+
  have ht: "holdsMutex (?ts ! t)" using assms(3) by simp
  have only: "\<And>a. a < length ?ts \<Longrightarrow> holdsMutex (?ts ! a) \<Longrightarrow> a = t"
    using u [OF _ assms(2) _ ht] by blast
  have lk: "locked ?m" using l assms(2) ht by blast
  show ?thesis
  proof (cases "waiting ?m")
    case Nil
    then have m': "m' = ?m\<lparr>locked := False\<rparr>" and wk: "woken = None"
      using assms(4) by (auto simp: release_def)
    let ?ts' = "?ts[t := Returned ok]"
    have noq: "\<And>a. a < length ?ts \<Longrightarrow> ?ts ! a \<noteq> Queued"
      using q Nil by auto
    have 1: "distinct (waiting m')" using m' Nil by simp
    have 2: "set (waiting m') = {a. a < length ?ts' \<and> ?ts' ! a = Queued}"
      using m' Nil noq assms(2) by (auto simp: nth_list_update)
    have nh: "\<And>a. a < length ?ts' \<Longrightarrow> \<not> holdsMutex (?ts' ! a)"
      using only assms(2) by (auto simp: nth_list_update split: if_splits)
    have 3: "locked m' \<longleftrightarrow> (\<exists>a<length ?ts'. holdsMutex (?ts' ! a))"
      using m' nh by auto
    have 4: "\<forall>a<length ?ts'. \<forall>b<length ?ts'. holdsMutex (?ts' ! a) \<longrightarrow> holdsMutex (?ts' ! b) \<longrightarrow> a = b"
      using nh by blast
    have 5: "\<not> locked m' \<longrightarrow> waiting m' = []" using m' Nil by simp
    from 1 2 3 4 5 show ?thesis
      unfolding mutexInv_def using wk by simp
  next
    case (Cons n rest)
    then have m': "m' = ?m\<lparr>waiting := rest\<rparr>" and wk: "woken = Some n"
      using assms(4) by (auto simp: release_def)
    let ?ts' = "?ts[n := Resumed, t := Returned ok]"
    have n: "n < length ?ts" "?ts ! n = Queued"
      using q Cons by auto
    have nt: "n \<noteq> t" using n(2) assms(3) by auto
    have nrest: "n \<notin> set rest" and drest: "distinct rest" using d Cons by simp_all
    have nth': "\<And>a. a < length ?ts \<Longrightarrow>
        ?ts' ! a = (if a = t then Returned ok else if a = n then Resumed else ?ts ! a)"
      using n(1) assms(2) by (simp add: nth_list_update)
    have 1: "distinct (waiting m')" using m' drest by simp
    have "set rest = set (waiting ?m) - {n}" using Cons nrest by auto
    also have "\<dots> = {a. a < length ?ts \<and> ?ts ! a = Queued} - {n}" using q by simp
    also have "\<dots> = {a. a < length ?ts' \<and> ?ts' ! a = Queued}"
      using assms(3) n(1) by (auto simp: nth' split: if_splits)
    finally have 2: "set (waiting m') = {a. a < length ?ts' \<and> ?ts' ! a = Queued}"
      using m' by simp
    have hn: "holdsMutex (?ts' ! n)" using n(1) nt by (simp add: nth')
    have 3: "locked m' \<longleftrightarrow> (\<exists>a<length ?ts'. holdsMutex (?ts' ! a))"
      using m' lk hn n(1) by auto
    have onlyn: "\<And>a. a < length ?ts' \<Longrightarrow> holdsMutex (?ts' ! a) \<Longrightarrow> a = n"
    proof -
      fix a assume a: "a < length ?ts'" "holdsMutex (?ts' ! a)"
      show "a = n"
      proof (rule ccontr)
        assume "a \<noteq> n"
        moreover have "a \<noteq> t" using a by (auto simp: nth')
        ultimately have "holdsMutex (?ts ! a)" using a by (simp add: nth')
        with only a(1) \<open>a \<noteq> t\<close> show False by simp
      qed
    qed
    have 4: "\<forall>a<length ?ts'. \<forall>b<length ?ts'. holdsMutex (?ts' ! a) \<longrightarrow> holdsMutex (?ts' ! b) \<longrightarrow> a = b"
      using onlyn by blast
    have 5: "\<not> locked m' \<longrightarrow> waiting m' = []" using m' lk by simp
    from 1 2 3 4 5 show ?thesis
      unfolding mutexInv_def using wk by simp
  qed
qed

lemma mutexInv_step:
  "runExclusive_step clock apiKey r r' \<Longrightarrow> mutexInv r \<Longrightarrow> mutexInv r'"
  by (induction rule: runExclusive_step.induct)
     (simp_all add: mutexInv_acquire mutexInv_body mutexInv_release)

lemma mutexInv_steps:
  "(runExclusive_step clock apiKey)\<^sup>*\<^sup>* r r' \<Longrightarrow> mutexInv r \<Longrightarrow> mutexInv r'"
  by (induction rule: rtranclp_induct) (auto intro: mutexInv_step)

lemma length_calls_step:
  "runExclusive_step clock apiKey r r' \<Longrightarrow> length (calls r') = length (calls r)"
  by (induction rule: runExclusive_step.induct) (auto split: option.splits)

lemma length_calls_steps:
  "(runExclusive_step clock apiKey)\<^sup>*\<^sup>* r r' \<Longrightarrow> length (calls r') = length (calls r)"
  by (induction rule: rtranclp_induct) (auto simp: length_calls_step)

text \<open>No deadlock: while a call has not returned, some continuation can run.\<close>

lemma runExclusive_progress:
  assumes "mutexInv r" and "t < length (calls r)" and "\<not> hasReturned (calls r ! t)"
  shows "\<exists>r'. runExclusive_step clock apiKey r r'"
proof -
  have holder: "\<exists>r'. runExclusive_step clock apiKey r r'"
    if "a < length (calls r)" "holdsMutex (calls r ! a)" for a
  proof (cases "calls r ! a")
    case Resumed
    obtain ok s' where "consumeBonus (clock a) apiKey (userDataStore r) = (ok, s')"
      by (cases "consumeBonus (clock a) apiKey (userDataStore r)")
    from step_body [where clock = clock and t = a, OF that(1) Resumed this] show ?thesis by blast
  next
    case (BodyDone ok)
    obtain woken m' where "release (bonusMutex r) = (woken, m')"
      by (cases "release (bonusMutex r)")
    from step_release [OF that(1) BodyDone this] show ?thesis by blast
  qed (use that in simp_all)
  show ?thesis
  proof (cases "calls r ! t")
    case Calling
    obtain resolved m' where "acquire t (bonusMutex r) = (resolved, m')"
      by (cases "acquire t (bonusMutex r)")
    from step_acquire [OF assms(2) Calling this] show ?thesis by blast
  next
    case Queued
    then have "t \<in> set (waiting (bonusMutex r))"
      using assms(1,2) by (simp add: mutexInv_def)
    then have "waiting (bonusMutex r) \<noteq> []" by auto
    then have "locked (bonusMutex r)" using assms(1) by (auto simp: mutexInv_def)
    then obtain a where "a < length (calls r)" "holdsMutex (calls r ! a)"
      using assms(1) by (auto simp: mutexInv_def)
    then show ?thesis by (rule holder)
  next
    case Resumed
    then show ?thesis using holder [OF assms(2)] by simp
  next
    case (BodyDone ok)
    then show ?thesis using holder [OF assms(2)] by simp
  next
    case (Returned ok)
    then show ?thesis using assms(3) by simp
  qed
qed

text \<open>Termination: every step uses up one of the finitely many pending steps.\<close>

lemma pendingSteps_update:
  assumes "t < length ts" and "pendingSteps c < pendingSteps (ts ! t)"
  shows "sum_list (map pendingSteps (ts[t := c])) < sum_list (map pendingSteps ts)"
proof -
  let ?xs = "map pendingSteps ts"
  have "?xs ! t \<le> sum_list ?xs"
    using assms(1) by (intro member_le_sum_list) simp_all
  moreover have "sum_list (map pendingSteps (ts[t := c])) = sum_list ?xs + pendingSteps c - ?xs ! t"
    using assms(1) by (simp add: map_update sum_list_update)
  ultimately show ?thesis using assms by simp
qed

lemma pendingSteps_step:
  assumes "runExclusive_step clock apiKey r r'" and "mutexInv r"
  shows "sum_list (map pendingSteps (calls r')) < sum_list (map pendingSteps (calls r))"
  using assms
proof (induction rule: runExclusive_step.induct)
  case (step_acquire t r resolved m')
  then show ?case
    by (simp add: pendingSteps_update)
next
  case (step_body t r ok s')
  then show ?case
    by (simp add: pendingSteps_update)
next
  case (step_release t r ok woken m')
  show ?case
  proof (cases "waiting (bonusMutex r)")
    case Nil
    then have "woken = None" using step_release.hyps(3) by (simp add: release_def)
    then show ?thesis using step_release.hyps(1,2)
      by (simp add: pendingSteps_update)
  next
    case (Cons n rest)
    then have wk: "woken = Some n" using step_release.hyps(3) by (simp add: release_def)
    have "n \<in> set (waiting (bonusMutex r))" using Cons by simp
    then have n: "n < length (calls r)" "calls r ! n = Queued"
      using step_release.prems by (auto simp: mutexInv_def)
    have nt: "n \<noteq> t" using n(2) step_release.hyps(2) by auto
    have "sum_list (map pendingSteps ((calls r)[n := Resumed, t := Returned ok]))
            < sum_list (map pendingSteps ((calls r)[n := Resumed]))"
      using step_release.hyps(1,2) nt by (intro pendingSteps_update) simp_all
    also have "\<dots> < sum_list (map pendingSteps (calls r))"
      using n by (intro pendingSteps_update) simp_all
    finally show ?thesis using wk by simp
  qed
qed

lemma singleton_list:
  assumes "distinct xs" and "set xs = {a}"
  shows "xs = [a]"
proof -
  have "length xs = 1" using distinct_card [OF assms(1)] assms(2) by simp
  then obtain x where "xs = [x]" by (auto simp: length_Suc_conv)
  with assms(2) show ?thesis by simp
qed

lemma sortedBonuses_one:
  assumes "i < length bs"
    and "\<forall>l<length bs. (\<not> isBonusExpired now s (bs ! l)) = (l = i)"
  shows "sortedBonuses now s bs = [i]"
proof -
  have "set (sortedBonuses now s bs) = {i}"
    using assms by (auto simp: set_sortedBonuses)
  moreover have "distinct (sortedBonuses now s bs)"
    by (simp add: sortedBonuses_def)
  ultimately show ?thesis by (intro singleton_list)
qed

lemma consumeBonus_one:
  assumes "map_of (users s) apiKey = Some u" and "credentialBonuses u = Some bs"
    and "i < length bs"
    and "\<forall>l<length bs. (\<not> isBonusExpired now s (bs ! l)) = (l = i)"
  shows "consumeBonus now apiKey s =
           (if usedCount (bs ! i) < bonusPerCredential (getFullConfig s) then
              (True, s\<lparr>users := AList.update apiKey
                  (u\<lparr>credentialBonuses :=
                       Some (bs[i := (bs ! i)\<lparr>usedCount := usedCount (bs ! i) + 1\<rparr>])\<rparr>) (users s)\<rparr>)
            else (False, s))"
proof -
  have "u\<lparr>credentialBonuses := Some bs\<rparr> = u" using assms(2) by simp
  then show ?thesis
    using assms(1)
    by (simp add: consumeBonus_user [OF assms(1,2)] sortedBonuses_one [OF assms(3,4)] Let_def
        AList_update_same)
qed

lemma count_update_same:
  "t < length ts \<Longrightarrow> P c = P (ts ! t) \<Longrightarrow> length (filter P (ts[t := c])) = length (filter P ts)"
proof (induction ts arbitrary: t)
  case Nil
  then show ?case by simp
next
  case (Cons x ts)
  then show ?case by (cases t) auto
qed

lemma count_update_gain:
  "t < length ts \<Longrightarrow> \<not> P (ts ! t) \<Longrightarrow> P c \<Longrightarrow>
     length (filter P (ts[t := c])) = Suc (length (filter P ts))"
proof (induction ts arbitrary: t)
  case Nil
  then show ?case by simp
next
  case (Cons x ts)
  then show ?case by (cases t) auto
qed

lemma grantStore_0:
  assumes "map_of (users s) apiKey = Some u" and "credentialBonuses u = Some bs"
    and "usedCount (bs ! i) = 0"
  shows "grantStore s apiKey u bs i 0 = s"
proof -
  have "(bs ! i)\<lparr>usedCount := 0\<rparr> = bs ! i" using assms(3) by simp
  then have "u\<lparr>credentialBonuses := Some (bs[i := (bs ! i)\<lparr>usedCount := int 0\<rparr>])\<rparr> = u"
    using assms(2) by simp
  then show ?thesis
    unfolding grantStore_def using assms(1) by (simp add: AList_update_same)
qed

lemma consumeBonus_grantStore:
  assumes "i < length bs"
    and "bonusPerCredential (getFullConfig s) = int C"
    and "\<forall>l<length bs. (\<not> isBonusExpired now s (bs ! l)) = (l = i)"
  shows "consumeBonus now apiKey (grantStore s apiKey u bs i n) =
           (if n < C then (True, grantStore s apiKey u bs i (Suc n))
            else (False, grantStore s apiKey u bs i n))"
proof -
  let ?bs = "bs[i := (bs ! i)\<lparr>usedCount := int n\<rparr>]"
  let ?u = "u\<lparr>credentialBonuses := Some ?bs\<rparr>"
  let ?s = "grantStore s apiKey u bs i n"
  have 1: "map_of (users ?s) apiKey = Some ?u" by (simp add: grantStore_def update_conv')
  have 2: "credentialBonuses ?u = Some ?bs" by simp
  have 3: "i < length ?bs" using assms(1) by simp
  have 4: "\<forall>l<length ?bs. (\<not> isBonusExpired now ?s (?bs ! l)) = (l = i)"
    using assms(1,3)
    by (simp add: isBonusExpired_def calculateExpiresAt_def getFullConfig_def grantStore_def
        nth_list_update)
  have cfg: "bonusPerCredential (getFullConfig ?s) = int C"
    using assms(2) by (simp add: getFullConfig_def grantStore_def)
  have used: "usedCount (?bs ! i) = int n" using assms(1) by simp
  have nxt: "?s\<lparr>users := AList.update apiKey
                  (?u\<lparr>credentialBonuses :=
                       Some (?bs[i := (?bs ! i)\<lparr>usedCount := usedCount (?bs ! i) + 1\<rparr>])\<rparr>) (users ?s)\<rparr>
              = grantStore s apiKey u bs i (Suc n)"
    using assms(1) by (simp add: grantStore_def add.commute)
  have "consumeBonus now apiKey ?s =
          (if int n < int C then (True, ?s\<lparr>users := AList.update apiKey
                  (?u\<lparr>credentialBonuses :=
                       Some (?bs[i := (?bs ! i)\<lparr>usedCount := usedCount (?bs ! i) + 1\<rparr>])\<rparr>) (users ?s)\<rparr>)
           else (False, ?s))"
    using consumeBonus_one [OF 1 2 3 4] by (simp only: cfg used)
  then show ?thesis
    by (simp only: nxt of_nat_less_iff)
qed

lemma consumeInv_init:
  assumes "map_of (users s) apiKey = Some u" and "credentialBonuses u = Some bs"
    and "usedCount (bs ! i) = 0"
  shows "consumeInv s apiKey u bs i C (concurrentCalls N s)"
  unfolding consumeInv_def
  by (rule exI [of _ 0]) (simp add: concurrentCalls_def grantStore_0 [OF assms])

lemma consumeInv_step:
  assumes "runExclusive_step clock apiKey r r'"
    and "consumeInv s apiKey u bs i C r"
    and "i < length bs"
    and "bonusPerCredential (getFullConfig s) = int C"
    and "\<forall>t<length (calls r). \<forall>l<length bs. (\<not> isBonusExpired (clock t) s (bs ! l)) = (l = i)"
    and "mutexInv r"
  shows "consumeInv s apiKey u bs i C r'"
  using assms
proof (induction rule: runExclusive_step.induct)
  case (step_acquire t r resolved m')
  from step_acquire.prems(1) obtain n where n: "n \<le> C"
    "userDataStore r = grantStore s apiKey u bs i n"
    "length (filter succeeded (calls r)) = n"
    "\<forall>a<length (calls r). failed (calls r ! a) \<longrightarrow> n = C"
    unfolding consumeInv_def by blast
  let ?c = "if resolved then Resumed else Queued"
  have cnt: "length (filter succeeded ((calls r)[t := ?c])) = n"
    using step_acquire.hyps(1,2) n(3) by (simp add: count_update_same)
  have fl: "\<forall>a<length (calls r). failed ((calls r)[t := ?c] ! a) \<longrightarrow> n = C"
    using n(4) step_acquire.hyps(1) by (auto simp: nth_list_update split: if_splits)
  show ?case
    unfolding consumeInv_def using n(1,2) cnt fl by (intro exI [of _ n]) simp
next
  case (step_body t r ok s')
  from step_body.prems(1) obtain n where n: "n \<le> C"
    "userDataStore r = grantStore s apiKey u bs i n"
    "length (filter succeeded (calls r)) = n"
    "\<forall>a<length (calls r). failed (calls r ! a) \<longrightarrow> n = C"
    unfolding consumeInv_def by blast
  have live: "\<forall>l<length bs. (\<not> isBonusExpired (clock t) s (bs ! l)) = (l = i)"
    using step_body.prems(4) step_body.hyps(1) by blast
  have res: "(ok, s') = (if n < C then (True, grantStore s apiKey u bs i (Suc n))
            else (False, grantStore s apiKey u bs i n))"
    using step_body.hyps(3) n(2)
      consumeBonus_grantStore [OF step_body.prems(2,3) live, of apiKey u n] by simp
  show ?case
  proof (cases "n < C")
    case True
    then have ok: "ok" and s': "s' = grantStore s apiKey u bs i (Suc n)" using res by simp_all
    have cnt: "length (filter succeeded ((calls r)[t := BodyDone ok])) = Suc n"
      using step_body.hyps(1,2) n(3) ok by (simp add: count_update_gain)
    have nofail: "\<forall>a<length (calls r). \<not> failed (calls r ! a)"
      using n(4) True by auto
    have fl: "\<forall>a<length (calls r). failed ((calls r)[t := BodyDone ok] ! a) \<longrightarrow> Suc n = C"
      using nofail ok step_body.hyps(1) by (auto simp: nth_list_update split: if_splits)
    show ?thesis
      unfolding consumeInv_def using True s' cnt fl by (intro exI [of _ "Suc n"]) simp
  next
    case False
    then have ok: "\<not> ok" and s': "s' = grantStore s apiKey u bs i n" using res by simp_all
    have nC: "n = C" using False n(1) by simp
    have cnt: "length (filter succeeded ((calls r)[t := BodyDone ok])) = n"
      using step_body.hyps(1,2) n(3) ok by (simp add: count_update_same)
    show ?thesis
      unfolding consumeInv_def using nC s' cnt by (intro exI [of _ n]) simp
  qed
next
  case (step_release t r ok woken m')
  from step_release.prems(1) obtain n where n: "n \<le> C"
    "userDataStore r = grantStore s apiKey u bs i n"
    "length (filter succeeded (calls r)) = n"
    "\<forall>a<length (calls r). failed (calls r ! a) \<longrightarrow> n = C"
    unfolding consumeInv_def by blast
  let ?ts1 = "(case woken of None \<Rightarrow> calls r | Some k \<Rightarrow> (calls r)[k := Resumed])"
  have wk: "\<And>k. woken = Some k \<Longrightarrow> k < length (calls r) \<and> calls r ! k = Queued"
  proof -
    fix k assume "woken = Some k"
    then have "k \<in> set (waiting (bonusMutex r))"
      using step_release.hyps(3) by (auto simp: release_def split: list.splits)
    then show "k < length (calls r) \<and> calls r ! k = Queued"
      using step_release.prems(5) by (simp add: mutexInv_def)
  qed
  have len1: "length ?ts1 = length (calls r)" by (simp split: option.splits)
  have t1: "?ts1 ! t = BodyDone ok"
    using step_release.hyps(1,2) wk by (auto simp: nth_list_update split: option.splits)
  have cnt1: "length (filter succeeded ?ts1) = n"
    using n(3) wk by (auto simp: count_update_same split: option.splits)
  have fl1: "\<forall>a<length (calls r). failed (?ts1 ! a) \<longrightarrow> n = C"
    using n(4) wk by (auto simp: nth_list_update split: option.splits if_splits)
  have cnt: "length (filter succeeded (?ts1[t := Returned ok])) = n"
    using cnt1 t1 len1 step_release.hyps(1) by (simp add: count_update_same)
  have fl: "\<forall>a<length (calls r). failed (?ts1[t := Returned ok] ! a) \<longrightarrow> n = C"
  proof (intro allI impI)
    fix a assume a: "a < length (calls r)" "failed (?ts1[t := Returned ok] ! a)"
    show "n = C"
    proof (cases "a = t")
      case True
      then have "failed (?ts1 ! t)" using a len1 t1 step_release.hyps(1) by simp
      then show ?thesis using fl1 step_release.hyps(1) by blast
    next
      case False
      then have "failed (?ts1 ! a)" using a by simp
      then show ?thesis using fl1 a(1) by blast
    qed
  qed
  show ?case
    unfolding consumeInv_def using n(1,2) cnt fl len1 by (intro exI [of _ n]) simp
qed

lemma run_invariants:
  assumes "map_of (users s) apiKey = Some u" and "credentialBonuses u = Some bs"
    and "i < length bs" and "usedCount (bs ! i) = 0"
    and "bonusPerCredential (getFullConfig s) = int C"
    and "\<forall>t<N. \<forall>l<length bs. (\<not> isBonusExpired (clock t) s (bs ! l)) = (l = i)"
    and "(runExclusive_step clock apiKey)\<^sup>*\<^sup>* (concurrentCalls N s) r"
  shows "mutexInv r \<and> consumeInv s apiKey u bs i C r \<and> length (calls r) = N"
  using assms(7)
proof (induction rule: rtranclp_induct)
  case base
  show ?case
    using mutexInv_init consumeInv_init [OF assms(1,2,4)] by (simp add: concurrentCalls_def)
next
  case (step r r')
  then have inv: "mutexInv r" "consumeInv s apiKey u bs i C r" "length (calls r) = N" by simp_all
  have live: "\<forall>t<length (calls r). \<forall>l<length bs. (\<not> isBonusExpired (clock t) s (bs ! l)) = (l = i)"
    using assms(6) inv(3) by simp
  show ?case
    using mutexInv_step [OF step.hyps(2) inv(1)]
      consumeInv_step [OF step.hyps(2) inv(2) assms(3,5) live inv(1)]
      length_calls_step [OF step.hyps(2)] inv(3) by simp
qed

lemma run_can_finish:
  "mutexInv r \<Longrightarrow>
     \<exists>r'. (runExclusive_step clock apiKey)\<^sup>*\<^sup>* r r' \<and> (\<forall>t<length (calls r'). hasReturned (calls r' ! t))"
proof (induction "sum_list (map pendingSteps (calls r))" arbitrary: r rule: less_induct)
  case less
  show ?case
  proof (cases "\<forall>t<length (calls r). hasReturned (calls r ! t)")
    case True
    then show ?thesis by blast
  next
    case False
    then obtain t where "t < length (calls r)" "\<not> hasReturned (calls r ! t)" by blast
    from runExclusive_progress [OF less.prems this] obtain r1
      where r1: "runExclusive_step clock apiKey r r1" by blast
    have "sum_list (map pendingSteps (calls r1)) < sum_list (map pendingSteps (calls r))"
      using r1 less.prems by (rule pendingSteps_step)
    from less.hyps [OF this mutexInv_step [OF r1 less.prems]] obtain r'
      where "(runExclusive_step clock apiKey)\<^sup>*\<^sup>* r1 r'" "\<forall>t<length (calls r'). hasReturned (calls r' ! t)"
      by blast
    with r1 show ?thesis
      by (meson converse_rtranclp_into_rtranclp)
  qed
qed

lemma all_returned_count:
  assumes "\<forall>t<length ts. hasReturned (ts ! t)"
  shows "filter (\<lambda>c. c = Returned True) ts = filter succeeded ts"
    and "(\<forall>t<length ts. \<not> failed (ts ! t)) \<Longrightarrow> length (filter succeeded ts) = length ts"
proof -
  have ret: "\<And>c. c \<in> set ts \<Longrightarrow> hasReturned c"
    using assms by (auto simp: in_set_conv_nth)
  have eq: "\<And>c. c \<in> set ts \<Longrightarrow> (c = Returned True) = succeeded c"
  proof -
    fix c assume "c \<in> set ts"
    then have "hasReturned c" by (rule ret)
    then show "(c = Returned True) = succeeded c" by (cases c) auto
  qed
  show "filter (\<lambda>c. c = Returned True) ts = filter succeeded ts"
    using eq by (intro filter_cong) simp_all
  assume nf: "\<forall>t<length ts. \<not> failed (ts ! t)"
  have "\<And>c. c \<in> set ts \<Longrightarrow> succeeded c"
  proof -
    fix c assume c: "c \<in> set ts"
    then have "hasReturned c" by (rule ret)
    moreover have "\<not> failed c" using nf c by (auto simp: in_set_conv_nth)
    ultimately show "succeeded c" by (cases c) auto
  qed
  then have "filter succeeded ts = ts" by (simp add: filter_id_conv)
  then show "length (filter succeeded ts) = length ts" by simp
qed

lemmas consume_eval_simps =
  consumeBonus_def sortedBonuses_def isBonusExpired_def calculateExpiresAt_def getFullConfig_def
  nullish_def Let_def upt_rec

lemma exSingleGrantStore_consume:
  "consumeBonus 3000000000 ''maki_a'' exSingleGrantStore = (True, exConsumedStore)"
  "consumeBonus 3000000000 ''maki_a'' exConsumedStore = (False, exConsumedStore)"
  by (simp_all add: consume_eval_simps exSingleGrantStore_def exConsumedStore_def)

lemma exFinishedRun_reachable:
  "(runExclusive_step (\<lambda>_. 3000000000) ''maki_a'')\<^sup>*\<^sup>* (concurrentCalls 2 exSingleGrantStore) exFinishedRun"
proof -
  let ?step = "runExclusive_step (\<lambda>_. 3000000000) ''maki_a''"
  let ?r0 = "\<lparr>bonusMutex = \<lparr>locked = False, waiting = []\<rparr>, calls = [Calling, Calling],
             userDataStore = exSingleGrantStore\<rparr>"
  let ?r1 = "\<lparr>bonusMutex = \<lparr>locked = True, waiting = []\<rparr>, calls = [Resumed, Calling],
             userDataStore = exSingleGrantStore\<rparr>"
  let ?r2 = "\<lparr>bonusMutex = \<lparr>locked = True, waiting = [1]\<rparr>, calls = [Resumed, Queued],
             userDataStore = exSingleGrantStore\<rparr>"
  let ?r3 = "\<lparr>bonusMutex = \<lparr>locked = True, waiting = [1]\<rparr>, calls = [BodyDone True, Queued],
             userDataStore = exConsumedStore\<rparr>"
  let ?r4 = "\<lparr>bonusMutex = \<lparr>locked = True, waiting = []\<rparr>, calls = [Returned True, Resumed],
             userDataStore = exConsumedStore\<rparr>"
  let ?r5 = "\<lparr>bonusMutex = \<lparr>locked = True, waiting = []\<rparr>, calls = [Returned True, BodyDone False],
             userDataStore = exConsumedStore\<rparr>"
  have r0: "concurrentCalls 2 exSingleGrantStore = ?r0"
    by (simp add: concurrentCalls_def numeral_2_eq_2)
  have s1: "?step ?r0 ?r1"
    using step_acquire [of 0 ?r0 True "\<lparr>locked = True, waiting = []\<rparr>" "\<lambda>_. 3000000000" "''maki_a''"]
    by (simp add: acquire_def)
  have s2: "?step ?r1 ?r2"
    using step_acquire [of 1 ?r1 False "\<lparr>locked = True, waiting = [1]\<rparr>" "\<lambda>_. 3000000000" "''maki_a''"]
    by (simp add: acquire_def)
  have s3: "?step ?r2 ?r3"
    using step_body [of 0 ?r2 "\<lambda>_. 3000000000" "''maki_a''" True exConsumedStore]
    by (simp add: exSingleGrantStore_consume)
  have s4: "?step ?r3 ?r4"
    using step_release [of 0 ?r3 True "Some 1" "\<lparr>locked = True, waiting = []\<rparr>" "\<lambda>_. 3000000000" "''maki_a''"]
    by (simp add: release_def)
  have s5: "?step ?r4 ?r5"
    using step_body [of 1 ?r4 "\<lambda>_. 3000000000" "''maki_a''" False exConsumedStore]
    by (simp add: exSingleGrantStore_consume)
  have s6: "?step ?r5 exFinishedRun"
    using step_release [of 1 ?r5 False None "\<lparr>locked = False, waiting = []\<rparr>" "\<lambda>_. 3000000000" "''maki_a''"]
    by (simp add: release_def exFinishedRun_def)
  have "?step\<^sup>*\<^sup>* ?r0 exFinishedRun"
    using s1 s2 s3 s4 s5 s6 by (meson rtranclp.rtrancl_into_rtrancl rtranclp.rtrancl_refl)
  then show ?thesis by (simp only: r0)
qed

lemma findIndex_unique:
  "distinct (map f xs) \<Longrightarrow> i < length xs \<Longrightarrow> f (xs ! i) = v \<Longrightarrow>
     findIndex (\<lambda>c. f c = v) xs = Some i"
proof (induction xs arbitrary: i)
  case Nil
  then show ?case by simp
next
  case (Cons x xs)
  show ?case
  proof (cases i)
    case 0
    with Cons.prems show ?thesis by simp
  next
    case (Suc j)
    then have j: "j < length xs" "f (xs ! j) = v" using Cons.prems by simp_all
    then have "v \<in> f ` set xs" by (metis imageI nth_mem)
    then have "f x \<noteq> v" using Cons.prems(1) by auto
    moreover have "findIndex (\<lambda>c. f c = v) xs = Some j"
      using Cons.IH [OF _ j] Cons.prems(1) by simp
    ultimately show ?thesis using Suc by simp
  qed
qed

lemma ensureUserData_credentials:
  "credentials (fst (ensureUserData now apiKey s))
     = (case getUserData s apiKey of None \<Rightarrow> [] | Some u \<Rightarrow> credentials u)"
  by (simp add: ensureUserData_def getUserData_def Let_def split: option.splits)

lemma ensureUserData_users:
  "users (snd (ensureUserData now apiKey s))
     = AList.update apiKey (fst (ensureUserData now apiKey s)) (users s)"
  by (simp add: ensureUserData_def Let_def)

lemma addUserCredential_other:
  "other \<noteq> apiKey \<Longrightarrow>
     getUserData (snd (addUserCredential now freshId apiKey info s)) other = getUserData s other"
  by (simp add: addUserCredential_def getUserData_def case_prod_beta Let_def update_conv'
      ensureUserData_users split: option.splits)

lemma addUserCredential_replace:
  assumes "getUserData s apiKey = Some u" and "distinct (map path (credentials u))"
    and "i < length (credentials u)" and "path (credentials u ! i) = infoPath info"
  shows "addUserCredential now freshId apiKey info s =
           (\<lparr>credId = credId (credentials u ! i), path = infoPath info,
             provider = orDefault (infoProvider info) ''claude-kiro-oauth'',
             authMethod = orDefault (infoAuthMethod info) ''unknown'',
             addedAt = addedAt (credentials u ! i)\<rparr>,
            snd (addUserCredential now freshId apiKey info s))"
    and "map_option credentials (getUserData (snd (addUserCredential now freshId apiKey info s)) apiKey)
           = Some ((credentials u)[i :=
               \<lparr>credId = credId (credentials u ! i), path = infoPath info,
                provider = orDefault (infoProvider info) ''claude-kiro-oauth'',
                authMethod = orDefault (infoAuthMethod info) ''unknown'',
                addedAt = addedAt (credentials u ! i)\<rparr>])"
proof -
  have cs: "credentials (fst (ensureUserData now apiKey s)) = credentials u"
    using assms(1) by (simp add: ensureUserData_credentials)
  have fi: "findIndex (\<lambda>c. path c = infoPath info) (credentials u) = Some i"
    using assms(2,3,4) by (rule findIndex_unique)
  show "addUserCredential now freshId apiKey info s =
           (\<lparr>credId = credId (credentials u ! i), path = infoPath info,
             provider = orDefault (infoProvider info) ''claude-kiro-oauth'',
             authMethod = orDefault (infoAuthMethod info) ''unknown'',
             addedAt = addedAt (credentials u ! i)\<rparr>,
            snd (addUserCredential now freshId apiKey info s))"
    by (simp add: addUserCredential_def case_prod_beta Let_def cs fi)
  show "map_option credentials (getUserData (snd (addUserCredential now freshId apiKey info s)) apiKey)
           = Some ((credentials u)[i :=
               \<lparr>credId = credId (credentials u ! i), path = infoPath info,
                provider = orDefault (infoProvider info) ''claude-kiro-oauth'',
                authMethod = orDefault (infoAuthMethod info) ''unknown'',
                addedAt = addedAt (credentials u ! i)\<rparr>])"
    by (simp add: addUserCredential_def case_prod_beta Let_def cs fi getUserData_def update_conv')
qed

lemma addUserCredential_append:
  assumes "\<forall>u. getUserData s apiKey = Some u \<longrightarrow> infoPath info \<notin> path ` set (credentials u)"
  shows "addUserCredential now freshId apiKey info s =
           (\<lparr>credId = freshId, path = infoPath info,
             provider = orDefault (infoProvider info) ''claude-kiro-oauth'',
             authMethod = orDefault (infoAuthMethod info) ''unknown'',
             addedAt = now\<rparr>,
            snd (addUserCredential now freshId apiKey info s))"
    and "map_option credentials (getUserData (snd (addUserCredential now freshId apiKey info s)) apiKey)
           = Some ((case getUserData s apiKey of None \<Rightarrow> [] | Some u \<Rightarrow> credentials u) @
               [\<lparr>credId = freshId, path = infoPath info,
                provider = orDefault (infoProvider info) ''claude-kiro-oauth'',
                authMethod = orDefault (infoAuthMethod info) ''unknown'',
                addedAt = now\<rparr>])"
proof -
  let ?cs = "case getUserData s apiKey of None \<Rightarrow> [] | Some u \<Rightarrow> credentials u"
  have cs: "credentials (fst (ensureUserData now apiKey s)) = ?cs"
    by (rule ensureUserData_credentials)
  have "\<forall>c\<in>set ?cs. path c \<noteq> infoPath info"
    using assms by (cases "getUserData s apiKey") (auto simp: image_iff)
  then have fi: "findIndex (\<lambda>c. path c = infoPath info) ?cs = None"
    by (simp add: findIndex_None_iff)
  show "addUserCredential now freshId apiKey info s =
           (\<lparr>credId = freshId, path = infoPath info,
             provider = orDefault (infoProvider info) ''claude-kiro-oauth'',
             authMethod = orDefault (infoAuthMethod info) ''unknown'',
             addedAt = now\<rparr>,
            snd (addUserCredential now freshId apiKey info s))"
    by (simp add: addUserCredential_def case_prod_beta Let_def cs fi)
  show "map_option credentials (getUserData (snd (addUserCredential now freshId apiKey info s)) apiKey)
           = Some (?cs @
               [\<lparr>credId = freshId, path = infoPath info,
                provider = orDefault (infoProvider info) ''claude-kiro-oauth'',
                authMethod = orDefault (infoAuthMethod info) ''unknown'',
                addedAt = now\<rparr>])"
  proof -
    have "snd (addUserCredential now freshId apiKey info s) =
            (snd (ensureUserData now apiKey s))\<lparr>users := AList.update apiKey
               ((fst (ensureUserData now apiKey s))\<lparr>credentials := ?cs @
                  [\<lparr>credId = freshId, path = infoPath info,
                    provider = orDefault (infoProvider info) ''claude-kiro-oauth'',
                    authMethod = orDefault (infoAuthMethod info) ''unknown'',
                    addedAt = now\<rparr>]\<rparr>)
               (users (snd (ensureUserData now apiKey s)))\<rparr>"
      by (simp add: addUserCredential_def case_prod_beta Let_def cs fi)
    then show ?thesis
      by (simp add: getUserData_def update_conv')
  qed
qed

lemma exTwoCredStore_eval:
  "exTwoCredStore =
     \<lparr>config = exConfig,
      users = [(''maki_a'',
                \<lparr>credentials = [\<lparr>credId = ''cred_1000_aaaaaa'', path = ''configs/kiro/1_token/token.json'',
                                  provider = ''claude-kiro-oauth'', authMethod = ''unknown'',
                                  addedAt = 1000\<rparr>,
                                \<lparr>credId = ''cred_3000_cccccc'', path = ''configs/kiro/2_token/token.json'',
                                  provider = ''claude-kiro-oauth'', authMethod = ''unknown'',
                                  addedAt = 3000\<rparr>],
                 credentialBonuses = Some [], userCreatedAt = 1000\<rparr>),
               (''maki_b'',
                \<lparr>credentials = [\<lparr>credId = ''cred_2000_bbbbbb'', path = ''configs/kiro/1_token/token.json'',
                                  provider = ''claude-kiro-oauth'', authMethod = ''unknown'',
                                  addedAt = 2000\<rparr>],
                 credentialBonuses = Some [], userCreatedAt = 2000\<rparr>)]\<rparr>"
  by (simp add: exTwoCredStore_def exSharedPathStore_eval addUserCredential_def
      ensureUserData_def orDefault_def Let_def)

lemma exTwoCredStore_reachable: "reachable exTwoCredStore"
  unfolding exTwoCredStore_def by (intro reach_add exSharedPathStore_reachable)

section \<open>Admission: \<open>validateKey\<close>\<close>

text \<open>
  C1. \<open>validateKey\<close> answers \<open>invalid_format\<close> for \<open>null\<close> and for every string
  that does not start with \<open>maki_\<close>; \<open>not_found\<close> when the table has no such key;
  \<open>disabled\<close> when the key's \<open>enabled\<close> flag is false, whatever its quotas; valid
  with \<open>useBonus = false\<close> when the key is enabled and its usage after the lazy reset
  (the stored usage when \<open>lastResetDate\<close> is today, otherwise 0) is below
  \<open>dailyLimit\<close>; valid with \<open>useBonus = true\<close> when that usage has reached the limit
  and the cached \<open>bonusRemaining\<close> is positive; and \<open>quota_exceeded\<close> when both pools
  are exhausted.
\<close>

theorem validateKey_taxonomy:
  "reason (fst (validateKey today None keys)) = Some invalid_format
   \<and> (\<not> prefix KEY_PREFIX k \<longrightarrow>
        valid (fst (validateKey today (Some k) keys)) = False
        \<and> reason (fst (validateKey today (Some k) keys)) = Some invalid_format)
   \<and> (prefix KEY_PREFIX k \<and> keys k = None \<longrightarrow>
        valid (fst (validateKey today (Some k) keys)) = False
        \<and> reason (fst (validateKey today (Some k) keys)) = Some not_found)
   \<and> (prefix KEY_PREFIX k \<and> keys k = Some kd \<and> \<not> enabled kd \<longrightarrow>
        valid (fst (validateKey today (Some k) keys)) = False
        \<and> reason (fst (validateKey today (Some k) keys)) = Some disabled)
   \<and> (prefix KEY_PREFIX k \<and> keys k = Some kd \<and> enabled kd
        \<and> (if lastResetDate kd = today then todayUsage kd else 0) < dailyLimit kd \<longrightarrow>
        valid (fst (validateKey today (Some k) keys)) = True
        \<and> useBonus (fst (validateKey today (Some k) keys)) = Some False)
   \<and> (prefix KEY_PREFIX k \<and> keys k = Some kd \<and> enabled kd
        \<and> dailyLimit kd \<le> (if lastResetDate kd = today then todayUsage kd else 0)
        \<and> 0 < bonusRemaining kd \<longrightarrow>
        valid (fst (validateKey today (Some k) keys)) = True
        \<and> useBonus (fst (validateKey today (Some k) keys)) = Some True
        \<and> cachedBonus (fst (validateKey today (Some k) keys)) = Some (bonusRemaining kd))
   \<and> (prefix KEY_PREFIX k \<and> keys k = Some kd \<and> enabled kd
        \<and> dailyLimit kd \<le> (if lastResetDate kd = today then todayUsage kd else 0)
        \<and> bonusRemaining kd \<le> 0 \<longrightarrow>
        valid (fst (validateKey today (Some k) keys)) = False
        \<and> reason (fst (validateKey today (Some k) keys)) = Some quota_exceeded)"
  by (auto simp: validateKey_def checkAndResetDailyCount_def orZero_def Let_def KEY_PREFIX_def)

theorem validateKey_taxonomy_witness:
  "reason (fst (validateKey ''2026-11-03'' (Some ''sk-123'') [''maki_a'' \<mapsto> exKey])) = Some invalid_format
   \<and> reason (fst (validateKey ''2026-11-03'' (Some ''maki_b'') [''maki_a'' \<mapsto> exKey])) = Some not_found
   \<and> reason (fst (validateKey ''2026-11-03'' (Some ''maki_a'')
                   [''maki_a'' \<mapsto> exKey\<lparr>enabled := False, todayUsage := 0\<rparr>])) = Some disabled
   \<and> useBonus (fst (validateKey ''2026-11-03'' (Some ''maki_a'')
                   [''maki_a'' \<mapsto> exKey\<lparr>todayUsage := 1\<rparr>])) = Some False
   \<and> useBonus (fst (validateKey ''2026-11-04'' (Some ''maki_a'') [''maki_a'' \<mapsto> exKey])) = Some False
   \<and> useBonus (fst (validateKey ''2026-11-03'' (Some ''maki_a'') [''maki_a'' \<mapsto> exKey])) = Some True
   \<and> cachedBonus (fst (validateKey ''2026-11-03'' (Some ''maki_a'') [''maki_a'' \<mapsto> exKey])) = Some 3
   \<and> reason (fst (validateKey ''2026-11-03'' (Some ''maki_a'')
                   [''maki_a'' \<mapsto> exKey\<lparr>bonusRemaining := 0\<rparr>])) = Some quota_exceeded"
  using validateKey_taxonomy [of "''2026-11-03''" "[''maki_a'' \<mapsto> exKey]" "''sk-123''" exKey]
    validateKey_taxonomy [of "''2026-11-03''" "[''maki_a'' \<mapsto> exKey]" "''maki_b''" exKey]
    validateKey_taxonomy [of "''2026-11-03''" "[''maki_a'' \<mapsto> exKey\<lparr>enabled := False, todayUsage := 0\<rparr>]"
       "''maki_a''" "exKey\<lparr>enabled := False, todayUsage := 0\<rparr>"]
    validateKey_taxonomy [of "''2026-11-03''" "[''maki_a'' \<mapsto> exKey\<lparr>todayUsage := 1\<rparr>]"
       "''maki_a''" "exKey\<lparr>todayUsage := 1\<rparr>"]
    validateKey_taxonomy [of "''2026-11-04''" "[''maki_a'' \<mapsto> exKey]" "''maki_a''" exKey]
    validateKey_taxonomy [of "''2026-11-03''" "[''maki_a'' \<mapsto> exKey]" "''maki_a''" exKey]
    validateKey_taxonomy [of "''2026-11-03''" "[''maki_a'' \<mapsto> exKey\<lparr>bonusRemaining := 0\<rparr>]"
       "''maki_a''" "exKey\<lparr>bonusRemaining := 0\<rparr>"]
  by (simp add: exKey_def KEY_PREFIX_def)

text \<open>
  C6 (as amended). Calling \<open>validateKey\<close> a second time on the same day changes
  nothing more than the first call did, and a key whose \<open>lastResetDate\<close> is already
  today is left untouched, so a reset happens at most once per day. For an enabled
  stored key whose id starts with \<open>maki_\<close> the first call after a rollover sets
  \<open>todayUsage\<close> to 0 and \<open>lastResetDate\<close> to the new day. A disabled key is rejected
  before the reset and keeps its counters. The reset happens only on touch: a call
  changes no record other than that of the key it is given, and it changes nothing at
  all when the input is \<open>null\<close>, lacks the prefix or names no stored key.
\<close>

theorem validateKey_daily_reset:
  "snd (validateKey today apiKey (snd (validateKey today apiKey keys)))
     = snd (validateKey today apiKey keys)
   \<and> (keys k = Some kd \<and> lastResetDate kd = today \<longrightarrow>
        snd (validateKey today (Some k) keys) = keys)
   \<and> (prefix KEY_PREFIX k \<and> keys k = Some kd \<and> enabled kd \<and> lastResetDate kd \<noteq> today \<longrightarrow>
        snd (validateKey today (Some k) keys)
          = keys(k \<mapsto> kd\<lparr>todayUsage := 0, lastResetDate := today\<rparr>))
   \<and> (keys k = Some kd \<and> \<not> enabled kd \<longrightarrow>
        snd (validateKey today (Some k) keys) = keys)
   \<and> (apiKey \<noteq> Some other \<longrightarrow>
        snd (validateKey today apiKey keys) other = keys other)
   \<and> snd (validateKey today None keys) = keys
   \<and> (\<not> prefix KEY_PREFIX k \<or> keys k = None \<longrightarrow>
        snd (validateKey today (Some k) keys) = keys)"
proof -
  have idem: "snd (validateKey today apiKey (snd (validateKey today apiKey keys)))
     = snd (validateKey today apiKey keys)"
    by (auto simp: validateKey_def checkAndResetDailyCount_def Let_def
        split: option.splits)
  have same: "keys k = Some kd \<and> lastResetDate kd = today \<longrightarrow>
        snd (validateKey today (Some k) keys) = keys"
    by (auto simp: validateKey_def checkAndResetDailyCount_def Let_def fun_upd_idem_iff)
  have reset: "prefix KEY_PREFIX k \<and> keys k = Some kd \<and> enabled kd \<and> lastResetDate kd \<noteq> today \<longrightarrow>
        snd (validateKey today (Some k) keys)
          = keys(k \<mapsto> kd\<lparr>todayUsage := 0, lastResetDate := today\<rparr>)"
    by (auto simp: validateKey_def checkAndResetDailyCount_def Let_def KEY_PREFIX_def)
  have dis: "keys k = Some kd \<and> \<not> enabled kd \<longrightarrow>
        snd (validateKey today (Some k) keys) = keys"
    by (auto simp: validateKey_def)
  have frame: "apiKey \<noteq> Some other \<longrightarrow>
        snd (validateKey today apiKey keys) other = keys other"
    by (auto simp: validateKey_def Let_def split: option.splits)
  have null: "snd (validateKey today None keys) = keys"
    by (simp add: validateKey_def)
  have rej: "\<not> prefix KEY_PREFIX k \<or> keys k = None \<longrightarrow>
        snd (validateKey today (Some k) keys) = keys"
    by (auto simp: validateKey_def)
  from idem same reset dis frame null rej show ?thesis by blast
qed

theorem validateKey_daily_reset_witness:
  "snd (validateKey ''2026-11-04'' (Some ''maki_a'') [''maki_a'' \<mapsto> exKey, ''maki_b'' \<mapsto> exKey])
     = [''maki_a'' \<mapsto> exKey\<lparr>todayUsage := 0, lastResetDate := ''2026-11-04''\<rparr>, ''maki_b'' \<mapsto> exKey]
   \<and> snd (validateKey ''2026-11-04'' (Some ''maki_a'') [''maki_a'' \<mapsto> exKey, ''maki_b'' \<mapsto> exKey]) ''maki_b''
     = Some exKey
   \<and> snd (validateKey ''2026-11-03'' (Some ''maki_a'') [''maki_a'' \<mapsto> exKey])
     = [''maki_a'' \<mapsto> exKey]
   \<and> snd (validateKey ''2026-11-04'' (Some ''maki_a'') [''maki_a'' \<mapsto> exKey\<lparr>enabled := False\<rparr>])
     = [''maki_a'' \<mapsto> exKey\<lparr>enabled := False\<rparr>]
   \<and> snd (validateKey ''2026-11-04'' (Some ''maki_c'') [''maki_a'' \<mapsto> exKey]) = [''maki_a'' \<mapsto> exKey]
   \<and> snd (validateKey ''2026-11-04'' (Some ''sk-123'') [''sk-123'' \<mapsto> exKey]) = [''sk-123'' \<mapsto> exKey]"
  using validateKey_daily_reset [where today = "''2026-11-04''" and apiKey = "Some ''maki_a''"
      and keys = "[''maki_a'' \<mapsto> exKey, ''maki_b'' \<mapsto> exKey]" and k = "''maki_a''" and kd = exKey
      and other = "''maki_b''"]
    validateKey_daily_reset [where today = "''2026-11-03''" and apiKey = "Some ''maki_a''"
      and keys = "[''maki_a'' \<mapsto> exKey]" and k = "''maki_a''" and kd = exKey and other = "''maki_b''"]
    validateKey_daily_reset [where today = "''2026-11-04''" and apiKey = "Some ''maki_a''"
      and keys = "[''maki_a'' \<mapsto> exKey\<lparr>enabled := False\<rparr>]" and k = "''maki_a''"
      and kd = "exKey\<lparr>enabled := False\<rparr>" and other = "''maki_b''"]
    validateKey_daily_reset [where today = "''2026-11-04''" and apiKey = "Some ''maki_c''"
      and keys = "[''maki_a'' \<mapsto> exKey]" and k = "''maki_c''" and kd = exKey and other = "''maki_b''"]
    validateKey_daily_reset [where today = "''2026-11-04''" and apiKey = "Some ''sk-123''"
      and keys = "[''sk-123'' \<mapsto> exKey]" and k = "''sk-123''" and kd = exKey and other = "''maki_b''"]
  by (simp add: exKey_def KEY_PREFIX_def fun_upd_twist)

text \<open>
  The claim as written ("for every key") fails for a disabled key: on 4 November the
  key last reset on 3 November still holds \<open>todayUsage = 2\<close> after \<open>validateKey\<close>.
\<close>

theorem validateKey_daily_reset_counterexample:
  "lastResetDate (exKey\<lparr>enabled := False\<rparr>) \<noteq> ''2026-11-04''
   \<and> snd (validateKey ''2026-11-04'' (Some ''maki_a'') [''maki_a'' \<mapsto> exKey\<lparr>enabled := False\<rparr>]) ''maki_a''
       = Some (exKey\<lparr>enabled := False\<rparr>)
   \<and> todayUsage (exKey\<lparr>enabled := False\<rparr>) = 2
   \<and> lastResetDate (exKey\<lparr>enabled := False\<rparr>) = ''2026-11-03''"
  by (simp add: validateKey_def exKey_def KEY_PREFIX_def)

section \<open>Recording usage: \<open>incrementUsage\<close>\<close>

text \<open>
  C10 (as amended). Whenever \<open>incrementUsage\<close> succeeds for a key, the stored record
  of that key is replaced by the returned one and no other key changes; \<open>totalUsage\<close>
  grows by exactly 1 and \<open>lastUsedAt\<close> is the current time. Measured against the
  record after the lazy daily reset (usage 0 when \<open>lastResetDate\<close> was not today,
  \<open>lastResetDate\<close> set to today), exactly one pool changes: on the daily path
  (\<open>usedBonus = false\<close>) \<open>todayUsage\<close> is one more and \<open>bonusRemaining\<close> is
  untouched, as is the callback's state; on the bonus path (\<open>usedBonus = true\<close>)
  \<open>bonusRemaining\<close> is one less and \<open>todayUsage\<close> is the reset value.
\<close>

theorem incrementUsage_frame:
  assumes "incrementUsage today nowIso apiKey onBonusUsed (keys, u) = (Some (kd', usedBonus), keys', u')"
  shows "\<exists>kd. keys apiKey = Some kd
          \<and> keys' = keys(apiKey \<mapsto> kd')
          \<and> (\<forall>other. other \<noteq> apiKey \<longrightarrow> keys' other = keys other)
          \<and> totalUsage kd' = totalUsage kd + 1
          \<and> lastUsedAt kd' = Some nowIso
          \<and> ((usedBonus = False
               \<and> kd' = kd\<lparr>todayUsage := (if lastResetDate kd = today then todayUsage kd else 0) + 1,
                           lastResetDate := today,
                           totalUsage := totalUsage kd + 1,
                           lastUsedAt := Some nowIso\<rparr>
               \<and> u' = u)
              \<or> (usedBonus = True
               \<and> kd' = kd\<lparr>todayUsage := (if lastResetDate kd = today then todayUsage kd else 0),
                           lastResetDate := today,
                           bonusRemaining := bonusRemaining kd - 1,
                           totalUsage := totalUsage kd + 1,
                           lastUsedAt := Some nowIso\<rparr>))"
proof -
  obtain kd where kd: "keys apiKey = Some kd"
    using assms by (cases "keys apiKey") (simp_all add: incrementUsage_def)
  let ?r = "if lastResetDate kd = today then todayUsage kd else 0"
  let ?kd1 = "kd\<lparr>todayUsage := ?r, lastResetDate := today\<rparr>"
  have kd1: "checkAndResetDailyCount today kd = ?kd1"
    by (simp add: checkAndResetDailyCount_def)
  show ?thesis
  proof (cases "?r < dailyLimit kd")
    case True
    have "incrementUsage today nowIso apiKey onBonusUsed (keys, u) =
            (Some (?kd1\<lparr>todayUsage := ?r + 1, totalUsage := totalUsage kd + 1,
                         lastUsedAt := Some nowIso\<rparr>, False),
             keys(apiKey \<mapsto> ?kd1\<lparr>todayUsage := ?r + 1, totalUsage := totalUsage kd + 1,
                         lastUsedAt := Some nowIso\<rparr>), u)"
      using True kd by (simp add: incrementUsage_def Let_def kd1)
    with assms have "usedBonus = False" "u' = u" "keys' = keys(apiKey \<mapsto> kd')"
      "kd' = ?kd1\<lparr>todayUsage := ?r + 1, totalUsage := totalUsage kd + 1,
                         lastUsedAt := Some nowIso\<rparr>"
      by auto
    then show ?thesis using kd by simp
  next
    case False
    show ?thesis
    proof (cases "0 < bonusRemaining kd")
      case True
      have "incrementUsage today nowIso apiKey onBonusUsed (keys, u) =
            (Some (?kd1\<lparr>bonusRemaining := bonusRemaining kd - 1, totalUsage := totalUsage kd + 1,
                         lastUsedAt := Some nowIso\<rparr>, True),
             keys(apiKey \<mapsto> ?kd1\<lparr>bonusRemaining := bonusRemaining kd - 1,
                         totalUsage := totalUsage kd + 1, lastUsedAt := Some nowIso\<rparr>),
             (case onBonusUsed of None \<Rightarrow> u | Some f \<Rightarrow> f apiKey u))"
        using True False kd by (simp add: incrementUsage_def Let_def orZero_def kd1)
      with assms have "usedBonus = True" "keys' = keys(apiKey \<mapsto> kd')"
        "kd' = ?kd1\<lparr>bonusRemaining := bonusRemaining kd - 1, totalUsage := totalUsage kd + 1,
                         lastUsedAt := Some nowIso\<rparr>"
        by auto
      then show ?thesis using kd by simp
    next
      case nb: False
      have "fst (incrementUsage today nowIso apiKey onBonusUsed (keys, u)) = None"
        using nb False kd by (simp add: incrementUsage_def Let_def orZero_def kd1)
      with assms show ?thesis by simp
    qed
  qed
qed

theorem incrementUsage_frame_witness:
  "incrementUsage ''2026-11-04'' ''2026-11-04T08:00:00.000Z'' ''maki_a'' None
       ([''maki_a'' \<mapsto> exKey, ''maki_b'' \<mapsto> exKey], ())
     = (Some (exKey\<lparr>todayUsage := 1, lastResetDate := ''2026-11-04'', totalUsage := 8,
                     lastUsedAt := Some ''2026-11-04T08:00:00.000Z''\<rparr>, False),
        [''maki_a'' \<mapsto> exKey\<lparr>todayUsage := 1, lastResetDate := ''2026-11-04'', totalUsage := 8,
                     lastUsedAt := Some ''2026-11-04T08:00:00.000Z''\<rparr>, ''maki_b'' \<mapsto> exKey], ())
   \<and> incrementUsage ''2026-11-03'' ''2026-11-03T08:00:00.000Z'' ''maki_a'' None
       ([''maki_a'' \<mapsto> exKey, ''maki_b'' \<mapsto> exKey], ())
     = (Some (exKey\<lparr>bonusRemaining := 2, totalUsage := 8,
                     lastUsedAt := Some ''2026-11-03T08:00:00.000Z''\<rparr>, True),
        [''maki_a'' \<mapsto> exKey\<lparr>bonusRemaining := 2, totalUsage := 8,
                     lastUsedAt := Some ''2026-11-03T08:00:00.000Z''\<rparr>, ''maki_b'' \<mapsto> exKey], ())"
proof -
  let ?K1 = "exKey\<lparr>todayUsage := 1, lastResetDate := ''2026-11-04'', totalUsage := 8,
                     lastUsedAt := Some ''2026-11-04T08:00:00.000Z''\<rparr>"
  let ?K2 = "exKey\<lparr>bonusRemaining := 2, totalUsage := 8,
                     lastUsedAt := Some ''2026-11-03T08:00:00.000Z''\<rparr>"
  have h1: "incrementUsage ''2026-11-04'' ''2026-11-04T08:00:00.000Z'' ''maki_a'' None
       ([''maki_a'' \<mapsto> exKey, ''maki_b'' \<mapsto> exKey], ())
     = (Some (?K1, False), [''maki_a'' \<mapsto> ?K1, ''maki_b'' \<mapsto> exKey], ())"
    by (simp add: incrementUsage_def checkAndResetDailyCount_def exKey_def Let_def fun_upd_twist)
  have h2: "incrementUsage ''2026-11-03'' ''2026-11-03T08:00:00.000Z'' ''maki_a'' None
       ([''maki_a'' \<mapsto> exKey, ''maki_b'' \<mapsto> exKey], ())
     = (Some (?K2, True), [''maki_a'' \<mapsto> ?K2, ''maki_b'' \<mapsto> exKey], ())"
    by (simp add: incrementUsage_def checkAndResetDailyCount_def orZero_def exKey_def Let_def fun_upd_twist)
  from incrementUsage_frame [OF h1] incrementUsage_frame [OF h2] h1 h2 show ?thesis
    by simp
qed

text \<open>
  Against the stored record the claim fails after a rollover: a key with
  \<open>todayUsage = 3\<close> of 5, last reset the day before, comes back with \<open>todayUsage = 1\<close>
  and an unchanged bonus, so neither pool moved by one.
\<close>

theorem incrementUsage_frame_counterexample:
  "todayUsage (exKey\<lparr>dailyLimit := 5, todayUsage := 3\<rparr>) = 3
   \<and> bonusRemaining (exKey\<lparr>dailyLimit := 5, todayUsage := 3\<rparr>) = 3
   \<and> map_option (\<lambda>(kd, usedBonus). (todayUsage kd, bonusRemaining kd, usedBonus))
        (fst (incrementUsage ''2026-11-04'' ''2026-11-04T08:00:00.000Z'' ''maki_a'' None
               ([''maki_a'' \<mapsto> exKey\<lparr>dailyLimit := 5, todayUsage := 3\<rparr>], ())))
       = Some (1, 3, False)"
  by (simp add: incrementUsage_def checkAndResetDailyCount_def exKey_def Let_def)

text \<open>
  C4 (as amended). For a key whose daily quota is exhausted and whose cached
  \<open>bonusRemaining\<close> is positive while the ledger holds no live grant with capacity
  left, \<open>consumeBonus\<close> fails and leaves the ledger as it is (no grant is created or
  incremented), but \<open>incrementUsage\<close> with the \<open>consumeBonus\<close> callback does not see
  that: it lowers the cached \<open>bonusRemaining\<close> by one, counts the request in
  \<open>totalUsage\<close> and returns the record with \<open>usedBonus = true\<close>.
\<close>

theorem recordUsage_stale_cache:
  assumes "keys apiKey = Some kd"
    and "dailyLimit kd \<le> (if lastResetDate kd = today then todayUsage kd else 0)"
    and "0 < bonusRemaining kd"
    and "\<forall>u bs. map_of (users us) apiKey = Some u \<and> credentialBonuses u = Some bs \<longrightarrow>
           (\<forall>b\<in>set bs. isBonusExpired now us b
                        \<or> bonusPerCredential (getFullConfig us) - usedCount b \<le> 0)"
  shows "fst (consumeBonus now apiKey us) = False
       \<and> recordUsage today nowIso now apiKey (keys, us) =
           (Some (kd\<lparr>todayUsage := (if lastResetDate kd = today then todayUsage kd else 0),
                     lastResetDate := today,
                     totalUsage := totalUsage kd + 1,
                     lastUsedAt := Some nowIso,
                     bonusRemaining := bonusRemaining kd - 1\<rparr>, True),
            keys(apiKey \<mapsto>
                 kd\<lparr>todayUsage := (if lastResetDate kd = today then todayUsage kd else 0),
                     lastResetDate := today,
                     totalUsage := totalUsage kd + 1,
                     lastUsedAt := Some nowIso,
                     bonusRemaining := bonusRemaining kd - 1\<rparr>),
            us)"
proof -
  have f: "fst (consumeBonus now apiKey us) = False"
    using assms(4) unfolding consumeBonus_ok_iff by (auto simp: not_less)
  then have same: "snd (consumeBonus now apiKey us) = us" by (rule consumeBonus_False_same)
  show ?thesis using f same assms(1-3)
    by (auto simp: recordUsage_def incrementUsage_def checkAndResetDailyCount_def orZero_def Let_def)
qed

theorem recordUsage_stale_cache_witness:
  "fst (consumeBonus 3000000000 ''maki_a'' exUsedUpStore) = False
   \<and> recordUsage ''2026-11-03'' ''2026-11-03T10:00:00.000Z'' 3000000000 ''maki_a''
         ([''maki_a'' \<mapsto> exKey], exUsedUpStore)
       = (Some (exKey\<lparr>totalUsage := 8, lastUsedAt := Some ''2026-11-03T10:00:00.000Z'',
                     bonusRemaining := 2\<rparr>, True),
          [''maki_a'' \<mapsto> exKey\<lparr>totalUsage := 8, lastUsedAt := Some ''2026-11-03T10:00:00.000Z'',
                     bonusRemaining := 2\<rparr>],
          exUsedUpStore)"
proof -
  have h4: "\<forall>u bs. map_of (users exUsedUpStore) ''maki_a'' = Some u \<and> credentialBonuses u = Some bs \<longrightarrow>
           (\<forall>b\<in>set bs. isBonusExpired 3000000000 exUsedUpStore b
                        \<or> bonusPerCredential (getFullConfig exUsedUpStore) - usedCount b \<le> 0)"
    by (auto simp: exUsedUpStore_def exConfig_def isBonusExpired_def calculateExpiresAt_def
        getFullConfig_def nullish_def)
  have h1: "[''maki_a'' \<mapsto> exKey] ''maki_a'' = Some exKey" by simp
  have h2: "dailyLimit exKey \<le> (if lastResetDate exKey = ''2026-11-03'' then todayUsage exKey else 0)"
    by (simp add: exKey_def)
  have h3: "0 < bonusRemaining exKey" by (simp add: exKey_def)
  from recordUsage_stale_cache [where keys = "[''maki_a'' \<mapsto> exKey]" and apiKey = "''maki_a''"
      and kd = exKey and today = "''2026-11-03''" and us = exUsedUpStore and now = 3000000000
      and nowIso = "''2026-11-03T10:00:00.000Z''", OF h1 h2 h3 h4]
  show ?thesis by (simp add: exKey_def)
qed

text \<open>
  The claim as written fails: with the only live grant used up the result is not
  \<open>null\<close>.
\<close>

theorem recordUsage_stale_cache_counterexample:
  "fst (consumeBonus 3000000000 ''maki_a'' exUsedUpStore) = False
   \<and> fst (recordUsage ''2026-11-03'' ''2026-11-03T10:00:00.000Z'' 3000000000 ''maki_a''
            ([''maki_a'' \<mapsto> exKey], exUsedUpStore))
       = Some (exKey\<lparr>totalUsage := 8, lastUsedAt := Some ''2026-11-03T10:00:00.000Z'',
                     bonusRemaining := 2\<rparr>, True)"
  by (simp add: recordUsage_def incrementUsage_def consumeBonus_def exUsedUpStore_def exConfig_def
      exKey_def checkAndResetDailyCount_def orZero_def Let_def sortedBonuses_def
      isBonusExpired_def calculateExpiresAt_def getFullConfig_def nullish_def upt_rec)

section \<open>The bonus ledger: \<open>consumeBonus\<close> and \<open>calculateBonusRemaining\<close>\<close>

text \<open>
  C2. Let the tenant's only non-expired grants be G1 (position \<open>i\<close>) and G2
  (position \<open>j\<close>), G1 granted strictly before G2, both with \<open>usedCount = 0\<close>, and let
  \<open>C = bonusPerCredential\<close>. Any number \<open>n \<le> C\<close> of successive \<open>consumeBonus\<close>
  calls (at clock readings at which exactly these two grants are live) all succeed
  and leave G1 with \<open>usedCount = n\<close> and every other grant, G2 included, as it was.
  Once G1 has reached \<open>C\<close>, the next call succeeds by incrementing G2.
\<close>

theorem consumeBonus_fifo:
  assumes "map_of (users s) apiKey = Some u" and "credentialBonuses u = Some bs"
    and "i < length bs" and "j < length bs"
    and "grantedAt (bs ! i) < grantedAt (bs ! j)"
    and "usedCount (bs ! i) = 0" and "usedCount (bs ! j) = 0"
    and "\<forall>now\<in>set nows. \<forall>l<length bs. (\<not> isBonusExpired now s (bs ! l)) = (l = i \<or> l = j)"
    and "int (length nows) \<le> bonusPerCredential (getFullConfig s)"
  shows "fst (consumeBonus_calls nows apiKey s) = replicate (length nows) True
       \<and> userGrants (snd (consumeBonus_calls nows apiKey s)) apiKey
           = Some (bs[i := (bs ! i)\<lparr>usedCount := int (length nows)\<rparr>])
       \<and> (int (length nows) = bonusPerCredential (getFullConfig s) \<and> nows \<noteq> []
            \<and> (\<forall>l<length bs. (\<not> isBonusExpired next s (bs ! l)) = (l = i \<or> l = j)) \<longrightarrow>
            fst (consumeBonus next apiKey (snd (consumeBonus_calls nows apiKey s))) = True
            \<and> userGrants (snd (consumeBonus next apiKey (snd (consumeBonus_calls nows apiKey s)))) apiKey
                = Some (bs[i := (bs ! i)\<lparr>usedCount := int (length nows)\<rparr>,
                           j := (bs ! j)\<lparr>usedCount := 1\<rparr>]))"
proof -
  let ?n = "int (length nows)"
  let ?bsC = "bs[i := (bs ! i)\<lparr>usedCount := ?n\<rparr>]"
  let ?uC = "u\<lparr>credentialBonuses := Some ?bsC\<rparr>"
  let ?sC = "s\<lparr>users := AList.update apiKey ?uC (users s)\<rparr>"
  have le: "usedCount (bs ! i) + ?n \<le> bonusPerCredential (getFullConfig s)"
    using assms(6,9) by simp
  have calls: "consumeBonus_calls nows apiKey s = (replicate (length nows) True, ?sC)"
    using consumeBonus_calls_first [OF assms(1-5) assms(8) le] assms(6) by simp
  have ne: "i \<noteq> j" using assms(5) by auto
  have A: "fst (consumeBonus_calls nows apiKey s) = replicate (length nows) True"
    by (simp add: calls)
  have B: "userGrants (snd (consumeBonus_calls nows apiKey s)) apiKey = Some ?bsC"
    by (simp add: calls)
  have C: "fst (consumeBonus next apiKey (snd (consumeBonus_calls nows apiKey s))) = True
            \<and> userGrants (snd (consumeBonus next apiKey (snd (consumeBonus_calls nows apiKey s)))) apiKey
                = Some (?bsC[j := (bs ! j)\<lparr>usedCount := 1\<rparr>])"
    if full: "?n = bonusPerCredential (getFullConfig s)" and nonempty: "nows \<noteq> []"
      and live: "\<forall>l<length bs. (\<not> isBonusExpired next s (bs ! l)) = (l = i \<or> l = j)"
  proof -
    have 1: "map_of (users ?sC) apiKey = Some ?uC" by (simp add: update_conv')
    have 2: "credentialBonuses ?uC = Some ?bsC" by simp
    have 3: "i < length ?bsC" "j < length ?bsC" using assms(3,4) by simp_all
    have 5: "grantedAt (?bsC ! i) < grantedAt (?bsC ! j)"
      using assms(3,4,5) ne by (simp add: nth_list_update)
    have 6: "\<forall>l<length ?bsC. (\<not> isBonusExpired next ?sC (?bsC ! l)) = (l = i \<or> l = j)"
      using live assms(3)
      by (simp add: isBonusExpired_def calculateExpiresAt_def getFullConfig_def nth_list_update)
    have cfg: "getFullConfig ?sC = getFullConfig s" by (simp add: getFullConfig_def)
    have pos: "0 < ?n" using nonempty by simp
    have ui: "usedCount (?bsC ! i) = ?n" using assms(3) by simp
    have uj: "?bsC ! j = bs ! j" using ne by simp
    have "consumeBonus next apiKey ?sC =
            (True, ?sC\<lparr>users := AList.update apiKey
                  (?uC\<lparr>credentialBonuses :=
                       Some (?bsC[j := (?bsC ! j)\<lparr>usedCount := usedCount (?bsC ! j) + 1\<rparr>])\<rparr>) (users ?sC)\<rparr>)"
      unfolding consumeBonus_two [OF 1 2 3 5 6] cfg ui uj using full pos assms(7) by simp
    then show ?thesis
      using assms(7) uj by (simp add: calls)
  qed
  from A B C show ?thesis by blast
qed

theorem consumeBonus_fifo_witness:
  "fst (consumeBonus_calls [3000000000, 3000000001] ''maki_a'' exFifoStore) = [True, True]
   \<and> userGrants (snd (consumeBonus_calls [3000000000, 3000000001] ''maki_a'' exFifoStore)) ''maki_a''
       = Some [\<lparr>credentialId = ''cred_2'', grantedAt = 2000000000, usedCount = 0\<rparr>,
               \<lparr>credentialId = ''cred_0'', grantedAt = 0, usedCount = 0\<rparr>,
               \<lparr>credentialId = ''cred_1'', grantedAt = 1000000000, usedCount = 2\<rparr>]
   \<and> fst (consumeBonus 3000000002 ''maki_a''
            (snd (consumeBonus_calls [3000000000, 3000000001] ''maki_a'' exFifoStore))) = True
   \<and> userGrants (snd (consumeBonus 3000000002 ''maki_a''
            (snd (consumeBonus_calls [3000000000, 3000000001] ''maki_a'' exFifoStore)))) ''maki_a''
       = Some [\<lparr>credentialId = ''cred_2'', grantedAt = 2000000000, usedCount = 1\<rparr>,
               \<lparr>credentialId = ''cred_0'', grantedAt = 0, usedCount = 0\<rparr>,
               \<lparr>credentialId = ''cred_1'', grantedAt = 1000000000, usedCount = 2\<rparr>]"
proof -
  let ?bs = "[\<lparr>credentialId = ''cred_2'', grantedAt = 2000000000, usedCount = 0\<rparr>,
              \<lparr>credentialId = ''cred_0'', grantedAt = 0, usedCount = 0\<rparr>,
              \<lparr>credentialId = ''cred_1'', grantedAt = 1000000000, usedCount = 0\<rparr>]"
  let ?u = "\<lparr>credentials = [], credentialBonuses = Some ?bs, userCreatedAt = 0\<rparr>"
  have h1: "map_of (users exFifoStore) ''maki_a'' = Some ?u" by (simp add: exFifoStore_def)
  have h2: "credentialBonuses ?u = Some ?bs" by simp
  have h3: "2 < length ?bs" "0 < length ?bs" by simp_all
  have h5: "grantedAt (?bs ! 2) < grantedAt (?bs ! 0)" by simp
  have h6: "usedCount (?bs ! 2) = 0" "usedCount (?bs ! 0) = 0" by simp_all
  have live: "\<And>t l. t \<in> {3000000000, 3000000001, 3000000002} \<Longrightarrow> l < length ?bs \<Longrightarrow>
           (\<not> isBonusExpired t exFifoStore (?bs ! l)) = (l = 2 \<or> l = 0)"
    by (auto simp: isBonusExpired_def calculateExpiresAt_def getFullConfig_def nullish_def
        exFifoStore_def exConfig_def less_Suc_eq numeral_3_eq_3 numeral_2_eq_2)
  have h8: "\<forall>now\<in>set [3000000000, 3000000001]. \<forall>l<length ?bs.
              (\<not> isBonusExpired now exFifoStore (?bs ! l)) = (l = 2 \<or> l = 0)"
    using live by simp
  have h9: "int (length [3000000000, 3000000001 :: int]) \<le> bonusPerCredential (getFullConfig exFifoStore)"
    by (simp add: getFullConfig_def nullish_def exFifoStore_def exConfig_def)
  have h10: "int (length [3000000000, 3000000001 :: int]) = bonusPerCredential (getFullConfig exFifoStore)
        \<and> [3000000000, 3000000001 :: int] \<noteq> []
        \<and> (\<forall>l<length ?bs. (\<not> isBonusExpired 3000000002 exFifoStore (?bs ! l)) = (l = 2 \<or> l = 0))"
    using live by (simp add: getFullConfig_def nullish_def exFifoStore_def exConfig_def)
  from consumeBonus_fifo [OF h1 h2 h3 h5 h6 h8 h9, of 3000000002] h10
  show ?thesis by simp
qed

text \<open>
  C8. A grant that is expired (\<open>now > grantedAt + bonusValidityDays\<close> days, in
  milliseconds) is excluded from consumption and from the remaining count:
  \<open>consumeBonus\<close> leaves it, at its position, exactly as it was; the loop of
  \<open>calculateBonusRemaining\<close> passes over it without adding anything; and the remaining
  count of the tenant is the same as if the grant were deleted.
\<close>

theorem expired_grant_excluded:
  assumes "map_of (users s) apiKey = Some u" and "credentialBonuses u = Some bs"
    and "i < length bs" and "isBonusExpired now s (bs ! i)"
  shows "(\<exists>bs'. userGrants (snd (consumeBonus now apiKey s)) apiKey = Some bs'
            \<and> length bs' = length bs \<and> bs' ! i = bs ! i)
       \<and> calculateBonusRemaining_loop now s healthy (bs ! i # rest) tot
           = calculateBonusRemaining_loop now s healthy rest tot
       \<and> calculateBonusRemaining now s apiKey healthy
           = calculateBonusRemaining now
               (s\<lparr>users := AList.update apiKey (u\<lparr>credentialBonuses := Some (splice1 i bs)\<rparr>) (users s)\<rparr>)
               apiKey healthy"
proof -
  have "i \<notin> set (sortedBonuses now s bs)"
    using assms(4) by (simp add: set_sortedBonuses)
  then have "snd (consumeBonus_loop (bonusPerCredential (getFullConfig s)) bs (sortedBonuses now s bs)) ! i = bs ! i"
    by (rule consumeBonus_loop_nth_other)
  then have 1: "\<exists>bs'. userGrants (snd (consumeBonus now apiKey s)) apiKey = Some bs'
            \<and> length bs' = length bs \<and> bs' ! i = bs ! i"
    by (simp add: consumeBonus_user [OF assms(1,2)])
  have 2: "calculateBonusRemaining_loop now s healthy (bs ! i # rest) tot
           = calculateBonusRemaining_loop now s healthy rest tot"
    using assms(4) by simp
  let ?s' = "s\<lparr>users := AList.update apiKey (u\<lparr>credentialBonuses := Some (splice1 i bs)\<rparr>) (users s)\<rparr>"
  have "calculateBonusRemaining now s apiKey healthy = calculateBonusRemaining_loop now s healthy bs 0"
    using assms(1,2) by (simp add: calculateBonusRemaining_def)
  also have "\<dots> = calculateBonusRemaining_loop now s healthy (take i bs @ bs ! i # drop (Suc i) bs) 0"
    by (simp only: id_take_nth_drop [OF assms(3), symmetric])
  also have "\<dots> = calculateBonusRemaining_loop now s healthy (splice1 i bs) 0"
    using assms(4) by (simp add: calculateBonusRemaining_loop_append splice1_def)
  also have "\<dots> = calculateBonusRemaining_loop now ?s' healthy (splice1 i bs) 0"
    by (rule calculateBonusRemaining_loop_cong [symmetric]) simp
  also have "\<dots> = calculateBonusRemaining now ?s' apiKey healthy"
    by (simp add: calculateBonusRemaining_def update_conv')
  finally have 3: "calculateBonusRemaining now s apiKey healthy = calculateBonusRemaining now ?s' apiKey healthy" .
  from 1 2 3 show ?thesis by blast
qed


theorem expired_grant_excluded_witness:
  "isBonusExpired 3000000000 exFifoStore \<lparr>credentialId = ''cred_0'', grantedAt = 0, usedCount = 0\<rparr>
   \<and> (\<exists>bs'. userGrants (snd (consumeBonus 3000000000 ''maki_a'' exFifoStore)) ''maki_a'' = Some bs'
         \<and> length bs' = 3
         \<and> bs' ! 1 = \<lparr>credentialId = ''cred_0'', grantedAt = 0, usedCount = 0\<rparr>)
   \<and> calculateBonusRemaining 3000000000 exFifoStore ''maki_a'' None
       = calculateBonusRemaining 3000000000
           (exFifoStore\<lparr>users := AList.update ''maki_a''
              \<lparr>credentials = [],
               credentialBonuses =
                 Some [\<lparr>credentialId = ''cred_2'', grantedAt = 2000000000, usedCount = 0\<rparr>,
                       \<lparr>credentialId = ''cred_1'', grantedAt = 1000000000, usedCount = 0\<rparr>],
               userCreatedAt = 0\<rparr> (users exFifoStore)\<rparr>) ''maki_a'' None"
proof -
  let ?bs = "[\<lparr>credentialId = ''cred_2'', grantedAt = 2000000000, usedCount = 0\<rparr>,
              \<lparr>credentialId = ''cred_0'', grantedAt = 0, usedCount = 0\<rparr>,
              \<lparr>credentialId = ''cred_1'', grantedAt = 1000000000, usedCount = 0\<rparr>]"
  let ?u = "\<lparr>credentials = [], credentialBonuses = Some ?bs, userCreatedAt = 0\<rparr>"
  have h1: "map_of (users exFifoStore) ''maki_a'' = Some ?u" by (simp add: exFifoStore_def)
  have h2: "credentialBonuses ?u = Some ?bs" by simp
  have h3: "1 < length ?bs" by simp
  have h4: "isBonusExpired 3000000000 exFifoStore (?bs ! 1)"
    by (simp add: isBonusExpired_def calculateExpiresAt_def getFullConfig_def nullish_def
        exFifoStore_def exConfig_def)
  from expired_grant_excluded [OF h1 h2 h3 h4, of None "[]" 0] h4
  show ?thesis by (simp add: splice1_def numeral_3_eq_3)
qed

section \<open>Reconciliation: \<open>syncCredentialBonuses\<close>\<close>

text \<open>
  C5 (as amended). A credential that a reconciliation pass reports with
  \<open>isHealthy = null\<close> (and that no entry of the same pass reports healthy under the
  same id) gets no grant from the pass, and a grant it held is revoked just as for
  \<open>isHealthy = false\<close>: after the pass the tenant holds no grant for that credential.
\<close>

theorem sync_unregistered_credential:
  assumes "c \<in> set creds" and "isHealthy c = None"
    and "\<forall>c'\<in>set creds. healthId c' = healthId c \<longrightarrow> isHealthy c' \<noteq> Some True"
  shows "\<exists>bs'. userGrants (snd (syncCredentialBonuses now apiKey creds s)) apiKey = Some bs'
               \<and> (\<forall>b\<in>set bs'. credentialId b \<noteq> healthId c)"
proof -
  have "healthId c \<notin> healthyIds creds"
    using assms(3) by (auto simp: healthyIds_def)
  then show ?thesis
    by (auto simp: syncCredentialBonuses_after(2))
qed

theorem sync_unregistered_credential_witness:
  "\<lparr>healthId = ''cred_5'', isHealthy = None, healthAddedAt = Some 2000000000\<rparr> \<in> set exSnapshot
   \<and> (\<exists>bs'. userGrants (snd (syncCredentialBonuses 3000000000 ''maki_a'' exSnapshot exOneGrantStore))
                ''maki_a'' = Some bs'
            \<and> (\<forall>b\<in>set bs'. credentialId b \<noteq> ''cred_5''))"
proof -
  let ?c = "\<lparr>healthId = ''cred_5'', isHealthy = None, healthAddedAt = Some 2000000000\<rparr>"
  have h1: "?c \<in> set exSnapshot" by (simp add: exSnapshot_def)
  have h2: "isHealthy ?c = None" by simp
  have h3: "\<forall>c'\<in>set exSnapshot. healthId c' = healthId ?c \<longrightarrow> isHealthy c' \<noteq> Some True"
    by (simp add: exSnapshot_def)
  from sync_unregistered_credential [OF h1 h2 h3, of 3000000000 "''maki_a''" exOneGrantStore] h1
  show ?thesis by simp
qed

text \<open>
  The claim as written (the grant set for the credential is left as it was) fails:
  a live grant of a credential reported \<open>null\<close> is removed and counted in
  \<open>removed\<close>.
\<close>

theorem sync_unregistered_credential_counterexample:
  "userGrants exOneGrantStore ''maki_a''
     = Some [\<lparr>credentialId = ''cred_1'', grantedAt = 1000000000, usedCount = 1\<rparr>]
   \<and> \<not> isBonusExpired 3000000000 exOneGrantStore
          \<lparr>credentialId = ''cred_1'', grantedAt = 1000000000, usedCount = 1\<rparr>
   \<and> fst (syncCredentialBonuses 3000000000 ''maki_a''
        [\<lparr>healthId = ''cred_1'', isHealthy = None, healthAddedAt = Some 1000000000\<rparr>]
        exOneGrantStore) = \<lparr>added = 0, removed = 1, syncBonusRemaining = 0\<rparr>
   \<and> userGrants (snd (syncCredentialBonuses 3000000000 ''maki_a''
        [\<lparr>healthId = ''cred_1'', isHealthy = None, healthAddedAt = Some 1000000000\<rparr>]
        exOneGrantStore)) ''maki_a'' = Some []"
  by (simp add: sync_eval_simps exOneGrantStore_def)

text \<open>
  C7 (as amended). With the clock, the configuration and the snapshot unchanged, a
  second pass of \<open>syncCredentialBonuses\<close> never removes anything; it reports
  \<open>added = 0\<close> exactly when every credential reported healthy holds a grant after the
  first pass, and in that case it returns \<open>{added: 0, removed: 0}\<close> with the same
  \<open>bonusRemaining\<close> and leaves the store as the first pass left it.
\<close>

theorem sync_second_pass:
  "(let p1 = syncCredentialBonuses now apiKey creds s;
        p2 = syncCredentialBonuses now apiKey creds (snd p1);
        covered = (\<forall>c\<in>set creds. isHealthy c = Some True \<longrightarrow>
                     (\<exists>g. userGrants (snd p1) apiKey = Some g
                          \<and> (\<exists>b\<in>set g. credentialId b = healthId c)))
    in removed (fst p2) = 0
       \<and> (added (fst p2) = 0 \<longleftrightarrow> covered)
       \<and> (covered \<longrightarrow>
            p2 = (\<lparr>added = 0, removed = 0,
                   syncBonusRemaining = syncBonusRemaining (fst p1)\<rparr>, snd p1)))"
proof -
  let ?hs = "healthyIds creds"
  let ?p1 = "syncCredentialBonuses now apiKey creds s"
  let ?s1 = "snd ?p1"
  let ?p2 = "syncCredentialBonuses now apiKey creds ?s1"
  obtain g where g: "userGrants ?s1 apiKey = Some g"
    and g_def: "g = filter (\<lambda>b. credentialId b \<in> ?hs \<and> \<not> isBonusExpired now s b)
                (fst (sync_addLoop now creds (case userGrants s apiKey of None \<Rightarrow> [] | Some l \<Rightarrow> l) 0))"
    by (simp add: syncCredentialBonuses_after(2))
  let ?u1 = "(fst (ensureUserData now apiKey s))\<lparr>credentialBonuses := Some g\<rparr>"
  have u1: "map_of (users ?s1) apiKey = Some ?u1"
    unfolding g_def by (rule syncCredentialBonuses_after(1))
  have cfg: "config ?s1 = config s" by (rule syncCredentialBonuses_after(3))
  have exp: "\<And>b. isBonusExpired now ?s1 b = isBonusExpired now s b"
    using cfg by (simp add: isBonusExpired_def calculateExpiresAt_def getFullConfig_def)
  have g_ok: "\<forall>b\<in>set g. credentialId b \<in> ?hs \<and> \<not> isBonusExpired now s b"
    by (simp add: g_def)
  let ?covered = "\<forall>c\<in>set creds. isHealthy c = Some True \<longrightarrow>
                     (\<exists>g. userGrants ?s1 apiKey = Some g \<and> (\<exists>b\<in>set g. credentialId b = healthId c))"
  have cov: "?covered \<longleftrightarrow> (\<forall>c\<in>set creds. isHealthy c = Some True \<longrightarrow> (\<exists>b\<in>set g. credentialId b = healthId c))"
    by (simp add: g)
  obtain new where new: "fst (sync_addLoop now creds g 0) = g @ new"
    "\<forall>b\<in>set new. credentialId b \<in> ?hs"
    using sync_addLoop_shape [of now creds g 0] by blast
  have p2: "?p2 = (\<lparr>added = snd (sync_addLoop now creds g 0),
             removed = length (filter (\<lambda>b. credentialId b \<notin> ?hs) (fst (sync_addLoop now creds g 0))),
             syncBonusRemaining = calculateBonusRemaining now (snd ?p2) apiKey (Some ?hs)\<rparr>, snd ?p2)"
    using syncCredentialBonuses_unfold [of now apiKey creds ?s1] by (simp add: g)
  have R: "removed (fst ?p2) = 0"
    by (subst p2) (use new g_ok in simp)
  have A: "added (fst ?p2) = 0 \<longleftrightarrow> ?covered"
  proof
    assume a0: "added (fst ?p2) = 0"
    have a: "snd (sync_addLoop now creds g 0) = 0"
      using a0 by (subst (asm) p2) simp
    show ?covered
      unfolding cov
    proof (intro ballI impI)
      fix c assume c: "c \<in> set creds" "isHealthy c = Some True"
      show "\<exists>b\<in>set g. credentialId b = healthId c"
      proof (rule ccontr)
        assume "\<not> ?thesis"
        from sync_addLoop_added_gt [OF c this, of 0 now] a show False by simp
      qed
    qed
  next
    assume ?covered
    then have "sync_addLoop now creds g 0 = (g, 0)"
      unfolding cov by (rule sync_addLoop_none)
    then show "added (fst ?p2) = 0"
      by (subst p2) simp
  qed
  have F: "?p2 = (\<lparr>added = 0, removed = 0,
                   syncBonusRemaining = syncBonusRemaining (fst ?p1)\<rparr>, ?s1)" if ?covered
  proof -
    have al: "sync_addLoop now creds g 0 = (g, 0)"
      using that unfolding cov by (rule sync_addLoop_none)
    have ens: "ensureUserData now apiKey ?s1 = (?u1, ?s1)"
      using u1 by (rule ensureUserData_present) simp
    have keep: "filter (\<lambda>b. credentialId b \<in> ?hs \<and> \<not> isBonusExpired now ?s1 b) g = g"
      using g_ok by (simp add: exp)
    have same: "?s1\<lparr>users := AList.update apiKey ?u1 (users ?s1)\<rparr> = ?s1"
      using u1 by (simp add: AList_update_same)
    have "?p2 = (\<lparr>added = 0, removed = 0,
                  syncBonusRemaining = calculateBonusRemaining now ?s1 apiKey (Some ?hs)\<rparr>, ?s1)"
      using syncCredentialBonuses_unfold [of now apiKey creds ?s1] g_ok
      by (simp add: g al ens keep same)
    then show ?thesis
      by (simp add: syncCredentialBonuses_after(4))
  qed
  from R A F show ?thesis
    unfolding Let_def by blast
qed

theorem sync_second_pass_witness:
  "syncCredentialBonuses 3000000000 ''maki_a'' exSnapshot
       (snd (syncCredentialBonuses 3000000000 ''maki_a'' exSnapshot exOneGrantStore))
     = (\<lparr>added = 0, removed = 0, syncBonusRemaining = 3\<rparr>,
        snd (syncCredentialBonuses 3000000000 ''maki_a'' exSnapshot exOneGrantStore))"
proof -
  have covered: "\<forall>c\<in>set exSnapshot. isHealthy c = Some True \<longrightarrow>
      (\<exists>g. userGrants (snd (syncCredentialBonuses 3000000000 ''maki_a'' exSnapshot exOneGrantStore))
              ''maki_a'' = Some g
           \<and> (\<exists>b\<in>set g. credentialId b = healthId c))"
    unfolding exSnapshot_first_pass by (simp add: exSnapshot_def userGrants_def)
  from sync_second_pass [of 3000000000 "''maki_a''" exSnapshot exOneGrantStore] covered
  show ?thesis
    unfolding Let_def by (simp add: exSnapshot_first_pass)
qed

text \<open>
  The claim as written fails when a healthy credential was added longer ago than
  the validity period: each pass creates its grant backdated to \<open>addedAt\<close>, counts it
  in \<open>added\<close> and purges it as expired, so the second pass reports \<open>added = 1\<close> again.
\<close>

theorem sync_second_pass_counterexample:
  "fst (syncCredentialBonuses 3000000000 ''maki_a''
          [\<lparr>healthId = ''cred_9'', isHealthy = Some True, healthAddedAt = Some 0\<rparr>] exEmptyStore)
     = \<lparr>added = 1, removed = 0, syncBonusRemaining = 0\<rparr>
   \<and> fst (syncCredentialBonuses 3000000000 ''maki_a''
          [\<lparr>healthId = ''cred_9'', isHealthy = Some True, healthAddedAt = Some 0\<rparr>]
          (snd (syncCredentialBonuses 3000000000 ''maki_a''
             [\<lparr>healthId = ''cred_9'', isHealthy = Some True, healthAddedAt = Some 0\<rparr>] exEmptyStore)))
     = \<lparr>added = 1, removed = 0, syncBonusRemaining = 0\<rparr>"
  by (simp add: sync_eval_simps exEmptyStore_def)

section \<open>Credentials: \<open>addUserCredential\<close>\<close>

text \<open>
  C9 (as amended). In every state reachable through the exported operations
  (\<open>ensureUserData\<close>, \<open>addUserCredential\<close>, \<open>removeUserCredential\<close>,
  \<open>migrateUserCredentials\<close>, \<open>consumeBonus\<close>, \<open>syncCredentialBonuses\<close>) each tenant's
  own credential list holds a path at most once. In such a state \<open>addUserCredential\<close>
  by a tenant who holds an entry with the path replaces that entry in place and returns
  it, keeping its \<open>id\<close> and \<open>addedAt\<close> and taking \<open>provider\<close> and \<open>authMethod\<close> from
  the call; by a tenant who holds none it appends a new entry with the fresh id and the
  current time; and it leaves the data of every other tenant as it was. Nothing is
  promised across tenants.
\<close>

theorem credential_path_unique_per_tenant:
  assumes "reachable s"
  shows "(getUserData s apiKey = Some u \<longrightarrow> distinct (map path (credentials u)))
       \<and> (getUserData s apiKey = Some u \<and> i < length (credentials u)
            \<and> path (credentials u ! i) = infoPath info \<longrightarrow>
            fst (addUserCredential now freshId apiKey info s)
              = \<lparr>credId = credId (credentials u ! i), path = infoPath info,
                 provider = orDefault (infoProvider info) ''claude-kiro-oauth'',
                 authMethod = orDefault (infoAuthMethod info) ''unknown'',
                 addedAt = addedAt (credentials u ! i)\<rparr>
            \<and> map_option credentials
                  (getUserData (snd (addUserCredential now freshId apiKey info s)) apiKey)
              = Some ((credentials u)[i := fst (addUserCredential now freshId apiKey info s)]))
       \<and> ((\<forall>v. getUserData s apiKey = Some v \<longrightarrow> infoPath info \<notin> path ` set (credentials v)) \<longrightarrow>
            fst (addUserCredential now freshId apiKey info s)
              = \<lparr>credId = freshId, path = infoPath info,
                 provider = orDefault (infoProvider info) ''claude-kiro-oauth'',
                 authMethod = orDefault (infoAuthMethod info) ''unknown'',
                 addedAt = now\<rparr>
            \<and> map_option credentials
                  (getUserData (snd (addUserCredential now freshId apiKey info s)) apiKey)
              = Some ((case getUserData s apiKey of None \<Rightarrow> [] | Some v \<Rightarrow> credentials v)
                       @ [fst (addUserCredential now freshId apiKey info s)]))
       \<and> (other \<noteq> apiKey \<longrightarrow>
            getUserData (snd (addUserCredential now freshId apiKey info s)) other
              = getUserData s other)"
proof -
  have D: "distinct (map path (credentials v))" if "getUserData s apiKey = Some v" for v
    using all_map_of [OF reachable_paths [OF assms]] that by (simp add: getUserData_def)
  have R: "fst (addUserCredential now freshId apiKey info s)
              = \<lparr>credId = credId (credentials u ! i), path = infoPath info,
                 provider = orDefault (infoProvider info) ''claude-kiro-oauth'',
                 authMethod = orDefault (infoAuthMethod info) ''unknown'',
                 addedAt = addedAt (credentials u ! i)\<rparr>
            \<and> map_option credentials
                  (getUserData (snd (addUserCredential now freshId apiKey info s)) apiKey)
              = Some ((credentials u)[i := fst (addUserCredential now freshId apiKey info s)])"
    if h: "getUserData s apiKey = Some u" "i < length (credentials u)"
      "path (credentials u ! i) = infoPath info"
  proof -
    note r = addUserCredential_replace [OF h(1) D [OF h(1)] h(2,3), of now freshId]
    have f: "fst (addUserCredential now freshId apiKey info s)
              = \<lparr>credId = credId (credentials u ! i), path = infoPath info,
                 provider = orDefault (infoProvider info) ''claude-kiro-oauth'',
                 authMethod = orDefault (infoAuthMethod info) ''unknown'',
                 addedAt = addedAt (credentials u ! i)\<rparr>"
      by (subst r(1)) simp
    show ?thesis
      using r(2) by (simp only: f simp_thms)
  qed
  have A: "fst (addUserCredential now freshId apiKey info s)
              = \<lparr>credId = freshId, path = infoPath info,
                 provider = orDefault (infoProvider info) ''claude-kiro-oauth'',
                 authMethod = orDefault (infoAuthMethod info) ''unknown'',
                 addedAt = now\<rparr>
            \<and> map_option credentials
                  (getUserData (snd (addUserCredential now freshId apiKey info s)) apiKey)
              = Some ((case getUserData s apiKey of None \<Rightarrow> [] | Some v \<Rightarrow> credentials v)
                       @ [fst (addUserCredential now freshId apiKey info s)])"
    if h: "\<forall>v. getUserData s apiKey = Some v \<longrightarrow> infoPath info \<notin> path ` set (credentials v)"
  proof -
    note r = addUserCredential_append [OF h, of now freshId]
    have f: "fst (addUserCredential now freshId apiKey info s)
              = \<lparr>credId = freshId, path = infoPath info,
                 provider = orDefault (infoProvider info) ''claude-kiro-oauth'',
                 authMethod = orDefault (infoAuthMethod info) ''unknown'',
                 addedAt = now\<rparr>"
      by (subst r(1)) simp
    show ?thesis
      using r(2) by (simp only: f simp_thms)
  qed
  have O: "other \<noteq> apiKey \<longrightarrow>
            getUserData (snd (addUserCredential now freshId apiKey info s)) other = getUserData s other"
    by (simp add: addUserCredential_other)
  from D R A O show ?thesis by blast
qed

theorem credential_path_unique_per_tenant_witness:
  "reachable exTwoCredStore
   \<and> map_option (\<lambda>u. map path (credentials u)) (getUserData exTwoCredStore ''maki_a'')
       = Some [''configs/kiro/1_token/token.json'', ''configs/kiro/2_token/token.json'']
   \<and> distinct [''configs/kiro/1_token/token.json'', ''configs/kiro/2_token/token.json'']
   \<and> fst (addUserCredential 4000 ''cred_4000_dddddd'' ''maki_a''
            \<lparr>infoPath = ''configs/kiro/2_token/token.json'', infoProvider = None,
              infoAuthMethod = Some ''google''\<rparr> exTwoCredStore)
       = \<lparr>credId = ''cred_3000_cccccc'', path = ''configs/kiro/2_token/token.json'',
          provider = ''claude-kiro-oauth'', authMethod = ''google'', addedAt = 3000\<rparr>
   \<and> map_option credentials
         (getUserData (snd (addUserCredential 4000 ''cred_4000_dddddd'' ''maki_a''
            \<lparr>infoPath = ''configs/kiro/2_token/token.json'', infoProvider = None,
              infoAuthMethod = Some ''google''\<rparr> exTwoCredStore)) ''maki_a'')
       = Some [\<lparr>credId = ''cred_1000_aaaaaa'', path = ''configs/kiro/1_token/token.json'',
                 provider = ''claude-kiro-oauth'', authMethod = ''unknown'', addedAt = 1000\<rparr>,
               \<lparr>credId = ''cred_3000_cccccc'', path = ''configs/kiro/2_token/token.json'',
                 provider = ''claude-kiro-oauth'', authMethod = ''google'', addedAt = 3000\<rparr>]
   \<and> getUserData (snd (addUserCredential 4000 ''cred_4000_dddddd'' ''maki_a''
            \<lparr>infoPath = ''configs/kiro/2_token/token.json'', infoProvider = None,
              infoAuthMethod = Some ''google''\<rparr> exTwoCredStore)) ''maki_b''
       = getUserData exTwoCredStore ''maki_b''
   \<and> fst (addUserCredential 4000 ''cred_4000_dddddd'' ''maki_b''
            \<lparr>infoPath = ''configs/kiro/2_token/token.json'', infoProvider = None,
              infoAuthMethod = Some ''google''\<rparr> exTwoCredStore)
       = \<lparr>credId = ''cred_4000_dddddd'', path = ''configs/kiro/2_token/token.json'',
          provider = ''claude-kiro-oauth'', authMethod = ''google'', addedAt = 4000\<rparr>"
proof -
  let ?u = "\<lparr>credentials = [\<lparr>credId = ''cred_1000_aaaaaa'', path = ''configs/kiro/1_token/token.json'',
                                  provider = ''claude-kiro-oauth'', authMethod = ''unknown'',
                                  addedAt = 1000\<rparr>,
                                \<lparr>credId = ''cred_3000_cccccc'', path = ''configs/kiro/2_token/token.json'',
                                  provider = ''claude-kiro-oauth'', authMethod = ''unknown'',
                                  addedAt = 3000\<rparr>],
                 credentialBonuses = Some [], userCreatedAt = 1000\<rparr>"
  let ?ub = "\<lparr>credentials = [\<lparr>credId = ''cred_2000_bbbbbb'', path = ''configs/kiro/1_token/token.json'',
                                  provider = ''claude-kiro-oauth'', authMethod = ''unknown'',
                                  addedAt = 2000\<rparr>],
                 credentialBonuses = Some [], userCreatedAt = 2000\<rparr>"
  let ?info = "\<lparr>infoPath = ''configs/kiro/2_token/token.json'', infoProvider = None,
              infoAuthMethod = Some ''google''\<rparr>"
  have ga: "getUserData exTwoCredStore ''maki_a'' = Some ?u"
    by (simp add: getUserData_def exTwoCredStore_eval)
  have gb: "getUserData exTwoCredStore ''maki_b'' = Some ?ub"
    by (simp add: getUserData_def exTwoCredStore_eval)
  from credential_path_unique_per_tenant [OF exTwoCredStore_reachable,
      where apiKey = "''maki_a''" and u = ?u and i = 1 and info = ?info and now = 4000
        and freshId = "''cred_4000_dddddd''" and other = "''maki_b''"]
    credential_path_unique_per_tenant [OF exTwoCredStore_reachable,
      where apiKey = "''maki_b''" and u = ?ub and i = 0 and info = ?info and now = 4000
        and freshId = "''cred_4000_dddddd''" and other = "''maki_a''"]
    exTwoCredStore_reachable ga gb
  show ?thesis by (auto simp: orDefault_def)
qed

text \<open>
  The claim as written fails: \<open>addUserCredential\<close> searches only the caller's list
  and never calls \<open>isCredentialPathUsed\<close>, so two tenants can both hold the same path.
\<close>

theorem credential_path_unique_counterexample:
  "reachable exSharedPathStore
   \<and> map_option (\<lambda>u. map path (credentials u)) (getUserData exSharedPathStore ''maki_a'')
       = Some [''configs/kiro/1_token/token.json'']
   \<and> map_option (\<lambda>u. map path (credentials u)) (getUserData exSharedPathStore ''maki_b'')
       = Some [''configs/kiro/1_token/token.json'']
   \<and> isCredentialPathUsed ''configs/kiro/1_token/token.json'' exSharedPathStore = Some ''maki_a''"
  using exSharedPathStore_reachable
  by (simp add: getUserData_def exSharedPathStore_eval isCredentialPathUsed_def)

section \<open>Concurrent consumption\<close>

text \<open>
  C3. Let the tenant hold one non-expired grant, at position \<open>i\<close>, with
  \<open>usedCount = 0\<close> and capacity \<open>C\<close>, and let \<open>N\<close> calls of \<open>consumeBonus\<close> run
  concurrently, their continuations interleaved in any order. In every state such a run
  reaches in which all \<open>N\<close> calls have returned, exactly \<open>min N C\<close> of them returned
  \<open>true\<close> and the grant's \<open>usedCount\<close> is \<open>min N C\<close>. The calls do return: while one
  has not, some continuation can run (the mutex never deadlocks), every step uses up one
  of finitely many pending steps, and so every run can be, and eventually is, completed.
\<close>

theorem consumeBonus_concurrent:
  assumes "map_of (users s) apiKey = Some u" and "credentialBonuses u = Some bs"
    and "i < length bs" and "usedCount (bs ! i) = 0"
    and "bonusPerCredential (getFullConfig s) = int C"
    and "\<forall>t<N. \<forall>l<length bs. (\<not> isBonusExpired (clock t) s (bs ! l)) = (l = i)"
    and "(runExclusive_step clock apiKey)\<^sup>*\<^sup>* (concurrentCalls N s) r"
  shows "length (calls r) = N
       \<and> ((\<forall>t<N. hasReturned (calls r ! t)) \<longrightarrow>
            length (filter (\<lambda>c. c = Returned True) (calls r)) = min N C
            \<and> userGrants (userDataStore r) apiKey
                = Some (bs[i := (bs ! i)\<lparr>usedCount := int (min N C)\<rparr>]))
       \<and> ((\<exists>t<N. \<not> hasReturned (calls r ! t)) \<longrightarrow> (\<exists>r'. runExclusive_step clock apiKey r r'))
       \<and> (\<forall>r'. runExclusive_step clock apiKey r r' \<longrightarrow>
              sum_list (map pendingSteps (calls r')) < sum_list (map pendingSteps (calls r)))
       \<and> (\<exists>r'. (runExclusive_step clock apiKey)\<^sup>*\<^sup>* r r' \<and> (\<forall>t<N. hasReturned (calls r' ! t)))"
proof -
  from run_invariants [OF assms] have inv: "mutexInv r" "consumeInv s apiKey u bs i C r"
    and len: "length (calls r) = N" by simp_all
  have final: "length (filter (\<lambda>c. c = Returned True) (calls r)) = min N C
            \<and> userGrants (userDataStore r) apiKey
                = Some (bs[i := (bs ! i)\<lparr>usedCount := int (min N C)\<rparr>])"
    if all: "\<forall>t<N. hasReturned (calls r ! t)"
  proof -
    from inv(2) obtain n where n: "n \<le> C"
      "userDataStore r = grantStore s apiKey u bs i n"
      "length (filter succeeded (calls r)) = n"
      "\<forall>a<length (calls r). failed (calls r ! a) \<longrightarrow> n = C"
      unfolding consumeInv_def by blast
    have all': "\<forall>t<length (calls r). hasReturned (calls r ! t)" using all len by simp
    have nN: "n \<le> N" using n(3) len length_filter_le [of succeeded "calls r"] by simp
    have "n = min N C"
    proof (cases "\<exists>a<length (calls r). failed (calls r ! a)")
      case True
      then have "n = C" using n(4) by blast
      with nN show ?thesis by simp
    next
      case False
      then have "length (filter succeeded (calls r)) = length (calls r)"
        using all_returned_count(2) [OF all'] by blast
      then have "n = N" using n(3) len by simp
      with n(1) show ?thesis by simp
    qed
    moreover have "length (filter (\<lambda>c. c = Returned True) (calls r)) = n"
      using all_returned_count(1) [OF all'] n(3) by simp
    moreover have "userGrants (userDataStore r) apiKey
                = Some (bs[i := (bs ! i)\<lparr>usedCount := int n\<rparr>])"
      using n(2) by (simp add: grantStore_def)
    ultimately show ?thesis by simp
  qed
  have progress: "\<exists>r'. runExclusive_step clock apiKey r r'" if "\<exists>t<N. \<not> hasReturned (calls r ! t)"
    using that runExclusive_progress [OF inv(1)] len by blast
  have decr: "\<forall>r'. runExclusive_step clock apiKey r r' \<longrightarrow>
              sum_list (map pendingSteps (calls r')) < sum_list (map pendingSteps (calls r))"
    using pendingSteps_step inv(1) by blast
  from run_can_finish [OF inv(1), of clock apiKey] obtain r'
    where r': "(runExclusive_step clock apiKey)\<^sup>*\<^sup>* r r'" "\<forall>t<length (calls r'). hasReturned (calls r' ! t)"
    by blast
  have "length (calls r') = N" using length_calls_steps [OF r'(1)] len by simp
  with r' have fin: "\<exists>r'. (runExclusive_step clock apiKey)\<^sup>*\<^sup>* r r' \<and> (\<forall>t<N. hasReturned (calls r' ! t))"
    by auto
  from len final progress decr fin show ?thesis by blast
qed

theorem consumeBonus_concurrent_witness:
  "(runExclusive_step (\<lambda>_. 3000000000) ''maki_a'')\<^sup>*\<^sup>* (concurrentCalls 2 exSingleGrantStore) exFinishedRun
   \<and> calls exFinishedRun = [Returned True, Returned False]
   \<and> length (filter (\<lambda>c. c = Returned True) (calls exFinishedRun)) = 1
   \<and> userGrants (userDataStore exFinishedRun) ''maki_a''
       = Some [\<lparr>credentialId = ''cred_0'', grantedAt = 0, usedCount = 0\<rparr>,
               \<lparr>credentialId = ''cred_1'', grantedAt = 1000000000, usedCount = 1\<rparr>]"
proof -
  let ?bs = "[\<lparr>credentialId = ''cred_0'', grantedAt = 0, usedCount = 0\<rparr>,
              \<lparr>credentialId = ''cred_1'', grantedAt = 1000000000, usedCount = 0\<rparr>]"
  let ?u = "\<lparr>credentials = [], credentialBonuses = Some ?bs, userCreatedAt = 0\<rparr>"
  have h1: "map_of (users exSingleGrantStore) ''maki_a'' = Some ?u"
    by (simp add: exSingleGrantStore_def)
  have h2: "credentialBonuses ?u = Some ?bs" by simp
  have h3: "1 < length ?bs" by simp
  have h4: "usedCount (?bs ! 1) = 0" by simp
  have h5: "bonusPerCredential (getFullConfig exSingleGrantStore) = int 1"
    by (simp add: getFullConfig_def nullish_def exSingleGrantStore_def)
  have h6: "\<forall>t<2. \<forall>l<length ?bs.
              (\<not> isBonusExpired ((\<lambda>_. 3000000000) t) exSingleGrantStore (?bs ! l)) = (l = 1)"
    by (auto simp: isBonusExpired_def calculateExpiresAt_def getFullConfig_def nullish_def
        exSingleGrantStore_def less_Suc_eq numeral_2_eq_2)
  have all: "\<forall>t<2. hasReturned (calls exFinishedRun ! t)"
    by (auto simp: exFinishedRun_def less_Suc_eq numeral_2_eq_2)
  from consumeBonus_concurrent [OF h1 h2 h3 h4 h5 h6 exFinishedRun_reachable] all
    exFinishedRun_reachable
  show ?thesis by (simp add: exFinishedRun_def)
qed

end
